theory Spec2Isabelle
  imports Main "HOL-Library.Word"
begin

section \<open>Memory and data model\<close>

text \<open>
  The channel library is C code over heap objects, so the model is an explicit store.
  An address is a natural number and \<open>NULL\<close> is address 0.  Every kind of object
  (channel, list header, list node, semaphore) lives in its own partial map from addresses
  to values; an address outside the domain of the map is an invalid pointer (never
  allocated, or already freed), and dereferencing it is the error \<open>InvalidPointer\<close>.

  The model is sequential: one thread runs one library call at a time.  Mutex operations
  and condition-variable signals therefore have no effect on the store and are left out;
  a wait (\<open>pthread_cond_wait\<close>, \<open>sem_wait\<close>) that no other thread can end shows up as a
  loop that does not terminate.

  Results: a call that does not return has the value \<open>None\<close>; a call that returns has the
  value \<open>Some r\<close>, where \<open>r\<close> is \<open>Inl InvalidPointer\<close> for a memory fault and \<open>Inr x\<close>
  for a normal return of \<open>x\<close>.
\<close>

type_synonym ptr = nat

abbreviation NULL :: ptr where
  "NULL \<equiv> 0"

datatype error = InvalidPointer

datatype buffer_status = BUFFER_SUCCESS | BUFFER_ERROR

datatype channel_status =
  SUCCESS | CLOSED_ERROR | GEN_ERROR | DESTROY_ERROR | CHANNEL_FULL | CHANNEL_EMPTY

datatype direction = SEND | RECV

text \<open>
  Modelled from the spec: \<open>buffer.c\<close> and \<open>buffer.h\<close> are not part of the sources.  The
  spec describes the buffer as a bounded FIFO queue of opaque element handles with a
  capacity fixed at creation, whose add reports "full" and whose remove reports "empty"
  instead of blocking.
\<close>

record buffer_t =
  capacity :: nat
  contents :: "ptr list"

text \<open>\<open>list_node_t\<close> and \<open>list_t\<close> of \<open>linked_list.c\<close>; \<open>count\<close> is a \<open>size_t\<close>.\<close>

record list_node_t =
  data :: ptr
  "next" :: ptr
  prev :: ptr

record list_t =
  head :: ptr
  count :: "64 word"

text \<open>
  \<open>channel_t\<close> as \<open>channel.c\<close> uses it.  The buffer is owned by its channel and is held
  by value; \<open>select\<close> is the pointer to the list of registered semaphores.  The fields
  \<open>mutex\<close>, \<open>recv\<close> and \<open>send\<close> carry no data in a sequential model.
\<close>

record channel_t =
  buffer :: buffer_t
  is_closed :: bool
  select :: ptr

text \<open>
  The store.  \<open>sems\<close> maps the address of every initialised semaphore to its value;
  \<open>mem\<close> is the caller's memory that the library writes through \<open>void** data\<close> and
  \<open>size_t* selected_index\<close>; \<open>brk\<close> is the last address handed out.
\<close>

record state =
  channels :: "ptr \<rightharpoonup> channel_t"
  lists :: "ptr \<rightharpoonup> list_t"
  nodes :: "ptr \<rightharpoonup> list_node_t"
  sems :: "ptr \<rightharpoonup> nat"
  mem :: "ptr \<Rightarrow> ptr"
  brk :: ptr

text \<open>
  \<open>malloc\<close> (and the address of a local variable) returns a fresh address, never \<open>NULL\<close>
  and never one handed out before.
\<close>

definition malloc :: "state \<Rightarrow> ptr \<times> state" where
  "malloc s = (Suc (brk s), s\<lparr>brk := Suc (brk s)\<rparr>)"

section \<open>The semaphore operations used by the library\<close>

definition sem_init :: "state \<Rightarrow> ptr \<Rightarrow> nat \<Rightarrow> state" where
  "sem_init s sem v = s\<lparr>sems := (sems s)(sem \<mapsto> v)\<rparr>"

definition sem_destroy :: "state \<Rightarrow> ptr \<Rightarrow> state" where
  "sem_destroy s sem = s\<lparr>sems := (sems s)(sem := None)\<rparr>"

text \<open>
  \<open>SEM_VALUE_MAX\<close> is the platform's bound on the value of a semaphore
  (\<open><limits.h>\<close>; 2147483647 with glibc on Linux).  \<open>sem_post\<close> increments the value; on a
  semaphore that is already at \<open>SEM_VALUE_MAX\<close> it fails with \<open>EOVERFLOW\<close> and leaves the
  value as it is.  The library never looks at the result of \<open>sem_post\<close> (it is called
  through \<open>list_foreach\<close>, which discards it), so the failed post is a normal return with
  the store unchanged.
\<close>

definition SEM_VALUE_MAX :: nat where
  "SEM_VALUE_MAX = 2147483647"

definition sem_post :: "state \<Rightarrow> ptr \<Rightarrow> error + state" where
  "sem_post s sem =
     (case sems s sem of
        None \<Rightarrow> Inl InvalidPointer
      | Some n \<Rightarrow>
          if n < SEM_VALUE_MAX then Inr (s\<lparr>sems := (sems s)(sem \<mapsto> Suc n)\<rparr>) else Inr s)"

text \<open>
  \<open>sem_wait\<close> returns once the value is positive, decrementing it.  While the value is 0
  the caller stays blocked; only a post by another thread can end that, and this model has
  no other thread.
\<close>

partial_function (option) sem_wait :: "state \<Rightarrow> ptr \<Rightarrow> (error + state) option" where
  "sem_wait s sem =
     (case sems s sem of
        None \<Rightarrow> Some (Inl InvalidPointer)
      | Some 0 \<Rightarrow> sem_wait s sem
      | Some (Suc n) \<Rightarrow> Some (Inr (s\<lparr>sems := (sems s)(sem \<mapsto> n)\<rparr>)))"

section \<open>The bounded buffer\<close>

text \<open>Modelled from the spec: \<open>buffer_create\<close>, \<open>buffer_add\<close> and \<open>buffer_remove\<close> of the
  missing \<open>buffer.c\<close>, as the FIFO queue the spec describes.\<close>

definition buffer_create :: "nat \<Rightarrow> buffer_t" where
  "buffer_create sz = \<lparr>capacity = sz, contents = []\<rparr>"

definition buffer_add :: "buffer_t \<Rightarrow> ptr \<Rightarrow> buffer_status \<times> buffer_t" where
  "buffer_add b d =
     (if length (contents b) < capacity b
      then (BUFFER_SUCCESS, b\<lparr>contents := contents b @ [d]\<rparr>)
      else (BUFFER_ERROR, b))"

text \<open>On success the removed element is returned; the caller stores it through \<open>data\<close>.\<close>

definition buffer_remove :: "buffer_t \<Rightarrow> buffer_status \<times> buffer_t \<times> ptr" where
  "buffer_remove b =
     (case contents b of
        [] \<Rightarrow> (BUFFER_ERROR, b, NULL)
      | x # xs \<Rightarrow> (BUFFER_SUCCESS, b\<lparr>contents := xs\<rparr>, x))"

section \<open>linked\_list.c\<close>

definition list_create :: "state \<Rightarrow> ptr \<times> state" where
  "list_create s =
     (let (list, s0) = malloc s
      in (list, s0\<lparr>lists := (lists s0)(list \<mapsto> \<lparr>head = NULL, count = 0\<rparr>)\<rparr>))"

text \<open>\<open>list_find\<close>: the \<open>while (curr != NULL)\<close> loop, then the function.\<close>

partial_function (option) list_find_loop ::
    "state \<Rightarrow> ptr \<Rightarrow> ptr \<Rightarrow> (error + ptr) option" where
  "list_find_loop s cur d =
     (if cur \<noteq> NULL then
        (case nodes s cur of
           None \<Rightarrow> Some (Inl InvalidPointer)
         | Some n \<Rightarrow> if data n = d then Some (Inr cur) else list_find_loop s (next n) d)
      else Some (Inr NULL))"

definition list_find :: "state \<Rightarrow> ptr \<Rightarrow> ptr \<Rightarrow> (error + ptr) option" where
  "list_find s list d =
     (case lists s list of
        None \<Rightarrow> Some (Inl InvalidPointer)
      | Some l \<Rightarrow> list_find_loop s (head l) d)"

text \<open>
  \<open>list_insert\<close>, statement by statement.  The branch for the empty list has no
  \<open>return\<close> and no \<open>else\<close>: the statements after it run in both cases, with \<open>curr\<close> read
  from \<open>list->head\<close> after the branch.
\<close>

definition list_insert :: "state \<Rightarrow> ptr \<Rightarrow> ptr \<Rightarrow> error + state" where
  "list_insert s list d =
     (case lists s list of
        None \<Rightarrow> Inl InvalidPointer
      | Some l \<Rightarrow>
          let (node, s0) = malloc s;
              n0 = \<lparr>data = d, next = NULL, prev = NULL\<rparr>;
              l1 = (if head l = NULL then l\<lparr>head := node\<rparr> else l);
              cur = head l1;
              l2 = l1\<lparr>head := node\<rparr>;
              ns = (nodes s0)(node \<mapsto> n0\<lparr>next := cur, prev := NULL\<rparr>)
          in (case ns cur of
                None \<Rightarrow> Inl InvalidPointer
              | Some c \<Rightarrow>
                  Inr (s0\<lparr>nodes := ns(cur \<mapsto> c\<lparr>prev := node\<rparr>),
                          lists := (lists s0)(list \<mapsto> l2\<lparr>count := count l2 + 1\<rparr>)\<rparr>)))"

text \<open>\<open>list_remove\<close>; \<open>free(node)\<close> takes the node out of the store.\<close>

definition list_remove :: "state \<Rightarrow> ptr \<Rightarrow> ptr \<Rightarrow> error + state" where
  "list_remove s list node =
     (if node = NULL then Inr s
      else
        (case (lists s list, nodes s node) of
           (Some l, Some n) \<Rightarrow>
             (case (if prev n = NULL then Inr (l\<lparr>head := next n\<rparr>, nodes s)
                    else (case nodes s (prev n) of
                            None \<Rightarrow> Inl InvalidPointer
                          | Some p \<Rightarrow> Inr (l, (nodes s)(prev n \<mapsto> p\<lparr>next := next n\<rparr>)))) of
                Inl e \<Rightarrow> Inl e
              | Inr (l1, ns1) \<Rightarrow>
                  (case ns1 node of
                     None \<Rightarrow> Inl InvalidPointer
                   | Some n1 \<Rightarrow>
                       (case (if next n1 \<noteq> NULL then
                                (case ns1 (next n1) of
                                   None \<Rightarrow> Inl InvalidPointer
                                 | Some q \<Rightarrow> Inr (ns1(next n1 \<mapsto> q\<lparr>prev := prev n1\<rparr>)))
                              else Inr ns1) of
                          Inl e \<Rightarrow> Inl e
                        | Inr ns2 \<Rightarrow>
                            Inr (s\<lparr>nodes := ns2(node := None),
                                   lists := (lists s)(list \<mapsto> l1\<lparr>count := count l1 - 1\<rparr>)\<rparr>))))
         | _ \<Rightarrow> Inl InvalidPointer))"

text \<open>\<open>list_destroy\<close>: the \<open>while (list->count != 0)\<close> loop, then \<open>free(list)\<close>.\<close>

partial_function (option) list_destroy_loop :: "state \<Rightarrow> ptr \<Rightarrow> (error + state) option" where
  "list_destroy_loop s list =
     (case lists s list of
        None \<Rightarrow> Some (Inl InvalidPointer)
      | Some l \<Rightarrow>
          if count l \<noteq> 0 then
            (case list_remove s list (head l) of
               Inl e \<Rightarrow> Some (Inl e)
             | Inr s' \<Rightarrow> list_destroy_loop s' list)
          else Some (Inr s))"

definition list_destroy :: "state \<Rightarrow> ptr \<Rightarrow> (error + state) option" where
  "list_destroy s list =
     (case list_destroy_loop s list of
        None \<Rightarrow> None
      | Some (Inl e) \<Rightarrow> Some (Inl e)
      | Some (Inr s') \<Rightarrow> Some (Inr (s'\<lparr>lists := (lists s')(list := None)\<rparr>)))"

text \<open>
  \<open>list_foreach\<close>: the \<open>for\<close> loop from \<open>list->head\<close>.  The callback \<open>func\<close> may change
  the store, so \<open>curr->next\<close> is read after the call.
\<close>

partial_function (option) list_foreach_loop ::
    "(state \<Rightarrow> ptr \<Rightarrow> error + state) \<Rightarrow> state \<Rightarrow> ptr \<Rightarrow> (error + state) option" where
  "list_foreach_loop func s cur =
     (if cur \<noteq> NULL then
        (case nodes s cur of
           None \<Rightarrow> Some (Inl InvalidPointer)
         | Some n \<Rightarrow>
             (case func s (data n) of
                Inl e \<Rightarrow> Some (Inl e)
              | Inr s' \<Rightarrow>
                  (case nodes s' cur of
                     None \<Rightarrow> Some (Inl InvalidPointer)
                   | Some n' \<Rightarrow> list_foreach_loop func s' (next n'))))
      else Some (Inr s))"

definition list_foreach ::
    "state \<Rightarrow> ptr \<Rightarrow> (state \<Rightarrow> ptr \<Rightarrow> error + state) \<Rightarrow> (error + state) option" where
  "list_foreach s list func =
     (case lists s list of
        None \<Rightarrow> Some (Inl InvalidPointer)
      | Some l \<Rightarrow> list_foreach_loop func s (head l))"

section \<open>channel.c\<close>

definition channel_create :: "state \<Rightarrow> nat \<Rightarrow> ptr \<times> state" where
  "channel_create s sz =
     (let (chan, s0) = malloc s;
          (list, s1) = list_create s0
      in (chan, s1\<lparr>channels := (channels s1)(chan \<mapsto>
                \<lparr>buffer = buffer_create sz, is_closed = False, select = list\<rparr>)\<rparr>))"

text \<open>
  The tail shared by every successful send, receive and close: under
  \<open>if (channel->select)\<close>, \<open>list_foreach(channel->select, (void*)sem_post)\<close>, then
  \<open>return status\<close>.
\<close>

definition post_selectors ::
    "state \<Rightarrow> channel_t \<Rightarrow> channel_status \<Rightarrow> (error + state \<times> channel_status) option" where
  "post_selectors s ch status =
     (if select ch \<noteq> NULL then
        (case list_foreach s (select ch) sem_post of
           None \<Rightarrow> None
         | Some (Inl e) \<Rightarrow> Some (Inl e)
         | Some (Inr s') \<Rightarrow> Some (Inr (s', status)))
      else Some (Inr (s, status)))"

text \<open>
  \<open>channel_send\<close>.  The loop is \<open>while (buffer_add(...) == BUFFER_ERROR)\<close>; its body waits
  on the condition variable and returns \<open>CLOSED_ERROR\<close> if the channel is closed after the
  wait.  With no other thread the wait leaves the store as it is.
\<close>

partial_function (option) channel_send_loop ::
    "state \<Rightarrow> ptr \<Rightarrow> ptr \<Rightarrow> (error + state \<times> channel_status) option" where
  "channel_send_loop s channel d =
     (case channels s channel of
        None \<Rightarrow> Some (Inl InvalidPointer)
      | Some ch \<Rightarrow>
          (case buffer_add (buffer ch) d of
             (BUFFER_ERROR, b) \<Rightarrow>
               if is_closed ch then Some (Inr (s, CLOSED_ERROR))
               else channel_send_loop s channel d
           | (BUFFER_SUCCESS, b) \<Rightarrow>
               post_selectors (s\<lparr>channels := (channels s)(channel \<mapsto> ch\<lparr>buffer := b\<rparr>)\<rparr>)
                 ch SUCCESS))"

definition channel_send ::
    "state \<Rightarrow> ptr \<Rightarrow> ptr \<Rightarrow> (error + state \<times> channel_status) option" where
  "channel_send s channel d =
     (case channels s channel of
        None \<Rightarrow> Some (Inl InvalidPointer)
      | Some ch \<Rightarrow>
          if is_closed ch then Some (Inr (s, CLOSED_ERROR))
          else if \<not> is_closed ch then channel_send_loop s channel d
          else Some (Inr (s, GEN_ERROR)))"

text \<open>\<open>channel_receive\<close>; \<open>d\<close> is the address \<open>data\<close> that \<open>buffer_remove\<close> writes through.\<close>

partial_function (option) channel_receive_loop ::
    "state \<Rightarrow> ptr \<Rightarrow> ptr \<Rightarrow> (error + state \<times> channel_status) option" where
  "channel_receive_loop s channel d =
     (case channels s channel of
        None \<Rightarrow> Some (Inl InvalidPointer)
      | Some ch \<Rightarrow>
          (case buffer_remove (buffer ch) of
             (BUFFER_ERROR, b, x) \<Rightarrow>
               if is_closed ch then Some (Inr (s, CLOSED_ERROR))
               else channel_receive_loop s channel d
           | (BUFFER_SUCCESS, b, x) \<Rightarrow>
               post_selectors
                 (s\<lparr>channels := (channels s)(channel \<mapsto> ch\<lparr>buffer := b\<rparr>),
                    mem := (mem s)(d := x)\<rparr>)
                 ch SUCCESS))"

definition channel_receive ::
    "state \<Rightarrow> ptr \<Rightarrow> ptr \<Rightarrow> (error + state \<times> channel_status) option" where
  "channel_receive s channel d =
     (case channels s channel of
        None \<Rightarrow> Some (Inl InvalidPointer)
      | Some ch \<Rightarrow>
          if is_closed ch then Some (Inr (s, CLOSED_ERROR))
          else if \<not> is_closed ch then channel_receive_loop s channel d
          else Some (Inr (s, GEN_ERROR)))"

definition channel_non_blocking_send ::
    "state \<Rightarrow> ptr \<Rightarrow> ptr \<Rightarrow> (error + state \<times> channel_status) option" where
  "channel_non_blocking_send s channel d =
     (case channels s channel of
        None \<Rightarrow> Some (Inl InvalidPointer)
      | Some ch \<Rightarrow>
          if is_closed ch then Some (Inr (s, CLOSED_ERROR))
          else if \<not> is_closed ch then
            (case buffer_add (buffer ch) d of
               (BUFFER_ERROR, b) \<Rightarrow> Some (Inr (s, CHANNEL_FULL))
             | (BUFFER_SUCCESS, b) \<Rightarrow>
                 post_selectors (s\<lparr>channels := (channels s)(channel \<mapsto> ch\<lparr>buffer := b\<rparr>)\<rparr>)
                   ch SUCCESS)
          else Some (Inr (s, GEN_ERROR)))"

definition channel_non_blocking_receive ::
    "state \<Rightarrow> ptr \<Rightarrow> ptr \<Rightarrow> (error + state \<times> channel_status) option" where
  "channel_non_blocking_receive s channel d =
     (case channels s channel of
        None \<Rightarrow> Some (Inl InvalidPointer)
      | Some ch \<Rightarrow>
          if is_closed ch then Some (Inr (s, CLOSED_ERROR))
          else if \<not> is_closed ch then
            (case buffer_remove (buffer ch) of
               (BUFFER_ERROR, b, x) \<Rightarrow> Some (Inr (s, CHANNEL_EMPTY))
             | (BUFFER_SUCCESS, b, x) \<Rightarrow>
                 post_selectors
                   (s\<lparr>channels := (channels s)(channel \<mapsto> ch\<lparr>buffer := b\<rparr>),
                      mem := (mem s)(d := x)\<rparr>)
                   ch SUCCESS)
          else Some (Inr (s, GEN_ERROR)))"

definition channel_close :: "state \<Rightarrow> ptr \<Rightarrow> (error + state \<times> channel_status) option" where
  "channel_close s channel =
     (case channels s channel of
        None \<Rightarrow> Some (Inl InvalidPointer)
      | Some ch \<Rightarrow>
          if is_closed ch then Some (Inr (s, CLOSED_ERROR))
          else if \<not> is_closed ch then
            post_selectors (s\<lparr>channels := (channels s)(channel \<mapsto> ch\<lparr>is_closed := True\<rparr>)\<rparr>)
              ch SUCCESS
          else Some (Inr (s, GEN_ERROR)))"

text \<open>\<open>channel_destroy\<close>: \<open>buffer_free\<close> and \<open>free(channel)\<close> take the channel, with the
  buffer it holds, out of the store.\<close>

definition channel_destroy :: "state \<Rightarrow> ptr \<Rightarrow> (error + state \<times> channel_status) option" where
  "channel_destroy s channel =
     (case channels s channel of
        None \<Rightarrow> Some (Inl InvalidPointer)
      | Some ch \<Rightarrow>
          if \<not> is_closed ch then Some (Inr (s, DESTROY_ERROR))
          else if is_closed ch then
            (case list_destroy s (select ch) of
               None \<Rightarrow> None
             | Some (Inl e) \<Rightarrow> Some (Inl e)
             | Some (Inr s') \<Rightarrow>
                 Some (Inr (s'\<lparr>channels := (channels s')(channel := None)\<rparr>, SUCCESS)))
          else Some (Inr (s, GEN_ERROR)))"

subsection \<open>channel\_select\<close>

text \<open>
  \<open>select_t\<close>: one entry of the array passed to \<open>channel_select\<close>.  The field \<open>data\<close> of
  the source is called \<open>sdata\<close> here (the name \<open>data\<close> is the list node's field): the
  value to send for \<open>SEND\<close>, the address of the caller's variable for \<open>RECV\<close>.
\<close>

record select_t =
  channel :: ptr
  dir :: direction
  sdata :: ptr

text \<open>
  The array \<open>channel_list\<close> of length \<open>channel_count\<close> is a list; \<open>sem\<close> is the address of
  the local semaphore \<open>select\<close>.  Indices are natural numbers: the source counts with an
  \<open>int\<close> against the \<open>size_t channel_count\<close>, which is the same below \<open>2^31\<close> entries.

  First loop (registration).  The result carries \<open>True\<close> when the loop left the function
  through \<open>sem_destroy(&select); return CLOSED_ERROR;\<close>.
\<close>

fun select_register :: "state \<Rightarrow> ptr \<Rightarrow> select_t list \<Rightarrow> error + state \<times> bool" where
  "select_register s sem [] = Inr (s, False)"
| "select_register s sem (x # rest) =
     (case channels s (channel x) of
        None \<Rightarrow> Inl InvalidPointer
      | Some ch \<Rightarrow>
          if is_closed ch then Inr (sem_destroy s sem, True)
          else
            (case list_insert s (select ch) sem of
               Inl e \<Rightarrow> Inl e
             | Inr s' \<Rightarrow> select_register s' sem rest))"

text \<open>The loop over \<open>j\<close>: \<open>list_remove(l, list_find(l, &select))\<close> for every entry.\<close>

fun select_deregister :: "state \<Rightarrow> ptr \<Rightarrow> select_t list \<Rightarrow> (error + state) option" where
  "select_deregister s sem [] = Some (Inr s)"
| "select_deregister s sem (x # rest) =
     (case channels s (channel x) of
        None \<Rightarrow> Some (Inl InvalidPointer)
      | Some ch \<Rightarrow>
          (case list_find s (select ch) sem of
             None \<Rightarrow> None
           | Some (Inl e) \<Rightarrow> Some (Inl e)
           | Some (Inr node) \<Rightarrow>
               (case list_remove s (select ch) node of
                  Inl e \<Rightarrow> Some (Inl e)
                | Inr s' \<Rightarrow> select_deregister s' sem rest)))"

text \<open>
  The loop over \<open>i\<close> inside \<open>while (true)\<close>: \<open>rest\<close> is the part of \<open>channel_list\<close> from
  index \<open>i\<close> on.  \<open>status\<close> starts as \<open>GEN_ERROR\<close> and is assigned in both directions.
  The result carries \<open>Some status\<close> when an entry ended the call and \<open>None\<close> when every
  entry answered \<open>CHANNEL_FULL\<close> or \<open>CHANNEL_EMPTY\<close>.
\<close>

fun select_sweep ::
    "state \<Rightarrow> ptr \<Rightarrow> select_t list \<Rightarrow> ptr \<Rightarrow> nat \<Rightarrow> select_t list \<Rightarrow>
       (error + state \<times> channel_status option) option" where
  "select_sweep s sem channel_list selected_index i [] = Some (Inr (s, None))"
| "select_sweep s sem channel_list selected_index i (x # rest) =
     (case (case dir x of
              SEND \<Rightarrow> channel_non_blocking_send s (channel x) (sdata x)
            | RECV \<Rightarrow> channel_non_blocking_receive s (channel x) (sdata x)) of
        None \<Rightarrow> None
      | Some (Inl e) \<Rightarrow> Some (Inl e)
      | Some (Inr (s1, status)) \<Rightarrow>
          if status = SUCCESS \<or> status = GEN_ERROR \<or> status = DESTROY_ERROR
               \<or> status = CLOSED_ERROR then
            (case select_deregister s1 sem channel_list of
               None \<Rightarrow> None
             | Some (Inl e) \<Rightarrow> Some (Inl e)
             | Some (Inr s2) \<Rightarrow>
                 Some (Inr (sem_destroy (s2\<lparr>mem := (mem s2)(selected_index := i)\<rparr>) sem,
                            Some status)))
          else select_sweep s1 sem channel_list selected_index (Suc i) rest)"

text \<open>\<open>while (true) { for ...; sem_wait(&select); }\<close>\<close>

partial_function (option) select_loop ::
    "state \<Rightarrow> ptr \<Rightarrow> select_t list \<Rightarrow> ptr \<Rightarrow> (error + state \<times> channel_status) option" where
  "select_loop s sem channel_list selected_index =
     (case select_sweep s sem channel_list selected_index 0 channel_list of
        None \<Rightarrow> None
      | Some (Inl e) \<Rightarrow> Some (Inl e)
      | Some (Inr (s1, Some status)) \<Rightarrow> Some (Inr (s1, status))
      | Some (Inr (s1, None)) \<Rightarrow>
          (case sem_wait s1 sem of
             None \<Rightarrow> None
           | Some (Inl e) \<Rightarrow> Some (Inl e)
           | Some (Inr s2) \<Rightarrow> select_loop s2 sem channel_list selected_index))"

definition channel_select ::
    "state \<Rightarrow> select_t list \<Rightarrow> ptr \<Rightarrow> (error + state \<times> channel_status) option" where
  "channel_select s channel_list selected_index =
     (let (sem, s0) = malloc s;
          s1 = sem_init s0 sem 0
      in (case select_register s1 sem channel_list of
            Inl e \<Rightarrow> Some (Inl e)
          | Inr (s2, True) \<Rightarrow> Some (Inr (s2, CLOSED_ERROR))
          | Inr (s2, False) \<Rightarrow> select_loop s2 sem channel_list selected_index))"

section \<open>Notions used to state the properties\<close>

text \<open>The store at program start: nothing allocated, the caller's memory zeroed.\<close>

definition init :: state where
  "init = \<lparr>channels = Map.empty, lists = Map.empty, nodes = Map.empty, sems = Map.empty,
           mem = (\<lambda>a. 0), brk = 0\<rparr>"

text \<open>
  \<open>registered h p ts\<close>: in the node store \<open>h\<close>, following \<open>next\<close> from \<open>p\<close> reaches
  \<open>NULL\<close>, and the nodes on the way hold the semaphores \<open>ts\<close>, in this order.
\<close>

fun registered :: "(ptr \<rightharpoonup> list_node_t) \<Rightarrow> ptr \<Rightarrow> ptr list \<Rightarrow> bool" where
  "registered h p [] = (p = NULL)"
| "registered h p (t # ts) =
     (p \<noteq> NULL \<and>
      (case h p of None \<Rightarrow> False | Some n \<Rightarrow> data n = t \<and> registered h (next n) ts))"

text \<open>
  \<open>selectors s ch ts\<close>: the list \<open>ch->select\<close> is a well-formed, \<open>NULL\<close>-terminated list
  whose nodes hold the semaphores \<open>ts\<close>, and each of them is an initialised semaphore.
  A channel without a list (\<open>ch->select == NULL\<close>) has no selectors.
\<close>

definition selectors :: "state \<Rightarrow> channel_t \<Rightarrow> ptr list \<Rightarrow> bool" where
  "selectors s ch ts =
     (if select ch = NULL then ts = []
      else (case lists s (select ch) of
              None \<Rightarrow> False
            | Some l \<Rightarrow> registered (nodes s) (head l) ts) \<and>
           list_all (\<lambda>t. sems s t \<noteq> None) ts)"

text \<open>
  \<open>posts k n\<close>: the value of a semaphore of value \<open>n\<close> after \<open>k\<close> calls of \<open>sem_post\<close>.
  \<open>posted ts m\<close>: the semaphore values \<open>m\<close> after one \<open>sem_post\<close> for each element of
  \<open>ts\<close>.
\<close>

definition posts :: "nat \<Rightarrow> nat \<Rightarrow> nat" where
  "posts k n = (if n < SEM_VALUE_MAX then min (n + k) SEM_VALUE_MAX else n)"

definition posted :: "ptr list \<Rightarrow> (ptr \<rightharpoonup> nat) \<Rightarrow> (ptr \<rightharpoonup> nat)" where
  "posted ts m = (\<lambda>t. map_option (posts (count_list ts t)) (m t))"

text \<open>
  \<open>history c s vs xs s'\<close>: starting in \<open>s\<close>, a sequence of successful non-blocking sends
  and receives on channel \<open>c\<close> (and no other call) leads to \<open>s'\<close>; \<open>vs\<close> are the values
  sent and \<open>xs\<close> the values delivered through \<open>data\<close>, both in the order of the calls.
\<close>

inductive history :: "ptr \<Rightarrow> state \<Rightarrow> ptr list \<Rightarrow> ptr list \<Rightarrow> state \<Rightarrow> bool" for c where
  history_start: "history c s [] [] s"
| history_send:
    "history c s vs xs s' \<Longrightarrow>
     channel_non_blocking_send s' c v = Some (Inr (s'', SUCCESS)) \<Longrightarrow>
     history c s (vs @ [v]) xs s''"
| history_receive:
    "history c s vs xs s' \<Longrightarrow>
     channel_non_blocking_receive s' c d = Some (Inr (s'', SUCCESS)) \<Longrightarrow>
     history c s vs (xs @ [mem s'' d]) s''"

code_pred history .

text \<open>The closed flag of the channel at an address, if there is a channel.\<close>

definition closed_flag :: "state \<Rightarrow> ptr \<Rightarrow> bool option" where
  "closed_flag s c = map_option is_closed (channels s c)"

section \<open>Traversing the list of registered semaphores\<close>

lemma posts_0: "posts 0 n = n"
  by (simp add: posts_def)

lemma posts_Suc: "posts k (posts 1 n) = posts (Suc k) n"
  by (simp add: posts_def)

lemma posted_Nil: "posted [] m = m"
proof -
  have "posts 0 = (\<lambda>n. n)" by (simp add: fun_eq_iff posts_0)
  then show ?thesis by (simp add: posted_def option.map_ident)
qed

lemma posted_None: "posted ts m t = None \<longleftrightarrow> m t = None"
  by (simp add: posted_def)

lemma posted_Cons:
  "m t = Some k \<Longrightarrow> posted ts (m(t \<mapsto> posts 1 k)) = posted (t # ts) m"
  by (auto simp: posted_def fun_eq_iff posts_Suc[unfolded One_nat_def])

lemma sem_post_live:
  "sems s t = Some n \<Longrightarrow> sem_post s t = Inr (s\<lparr>sems := (sems s)(t \<mapsto> posts 1 n)\<rparr>)"
proof (cases "n < SEM_VALUE_MAX")
  case True
  assume "sems s t = Some n"
  with True show ?thesis by (simp add: sem_post_def posts_def)
next
  case False
  assume n: "sems s t = Some n"
  then have "(sems s)(t \<mapsto> n) = sems s" by (simp add: fun_eq_iff)
  with n False show ?thesis by (simp add: sem_post_def posts_def)
qed

text \<open>On a well-formed list the traversal ends, and each semaphore has been posted once
  for each node that holds it.\<close>

lemma list_foreach_loop_registered:
  "registered (nodes s) p ts \<Longrightarrow> list_all (\<lambda>t. sems s t \<noteq> None) ts \<Longrightarrow>
   list_foreach_loop sem_post s p =
     Some (Inr (s\<lparr>sems := posted ts (sems s)\<rparr>))"
proof (induction ts arbitrary: s p)
  case Nil
  then show ?case by (simp add: list_foreach_loop.simps[of _ _ NULL] posted_Nil)
next
  case (Cons t ts)
  from Cons.prems(1) obtain n where p: "p \<noteq> NULL" "nodes s p = Some n" "data n = t"
    "registered (nodes s) (next n) ts"
    by (auto split: option.splits)
  from Cons.prems(2) obtain k where k: "sems s t = Some k" by auto
  let ?s1 = "s\<lparr>sems := (sems s)(t \<mapsto> posts 1 k)\<rparr>"
  have live: "list_all (\<lambda>t. sems ?s1 t \<noteq> None) ts"
    using Cons.prems(2) by (simp add: list_all_iff)
  have reg: "registered (nodes ?s1) (next n) ts" using p(4) by simp
  have step: "list_foreach_loop sem_post s p = list_foreach_loop sem_post ?s1 (next n)"
    using p k by (subst list_foreach_loop.simps) (simp add: sem_post_live)
  have eq: "?s1\<lparr>sems := posted ts (sems ?s1)\<rparr> =
            s\<lparr>sems := posted (t # ts) (sems s)\<rparr>"
    using posted_Cons[of "sems s" t k ts, OF k] by simp
  show ?case unfolding step Cons.IH[OF reg live] eq by (rule refl)
qed

lemma post_selectors_registered:
  assumes "selectors s ch ts"
    and "lists s' = lists s" "nodes s' = nodes s" "sems s' = sems s"
  shows "post_selectors s' ch st =
     Some (Inr (s'\<lparr>sems := posted ts (sems s)\<rparr>, st))"
proof (cases "select ch = NULL")
  case True
  with assms(1) have "ts = []" by (simp add: selectors_def)
  moreover have "s'\<lparr>sems := sems s\<rparr> = s'" using assms(4) by simp
  ultimately show ?thesis using True by (simp add: post_selectors_def posted_Nil)
next
  case False
  with assms(1) obtain l where l: "lists s (select ch) = Some l"
    "registered (nodes s) (head l) ts" "list_all (\<lambda>t. sems s t \<noteq> None) ts"
    by (auto simp: selectors_def split: option.splits)
  have "list_foreach_loop sem_post s' (head l) =
     Some (Inr (s'\<lparr>sems := posted ts (sems s')\<rparr>))"
    by (rule list_foreach_loop_registered) (use l assms in simp_all)
  then show ?thesis using False l assms by (simp add: post_selectors_def list_foreach_def)
qed

text \<open>On a list that runs into a node whose \<open>next\<close> is the node itself, the traversal
  does not end, as long as the callback returns and keeps the node.\<close>

lemma list_foreach_loop_cycle:
  assumes step: "\<And>t. I t \<Longrightarrow> nodes t p = Some n \<and> (\<exists>t'. func t (data n) = Inr t' \<and> I t')"
    and self: "next n = p" and nz: "p \<noteq> NULL" and init: "I s"
  shows "list_foreach_loop func s p = None"
proof -
  have "\<not> (f = func \<and> c = p \<and> I t)" if "list_foreach_loop f t c = Some y" for f t c y
  proof (rule list_foreach_loop.raw_induct
      [where P = "\<lambda>f t c y. \<not> (f = func \<and> c = p \<and> I t)", OF _ that])
    fix loop f t c y
    assume IH: "\<And>f t c y. loop f t c = Some y \<Longrightarrow> \<not> (f = func \<and> c = p \<and> I t)"
      and body: "(if c \<noteq> NULL then
          (case nodes t c of None \<Rightarrow> Some (Inl InvalidPointer)
           | Some n \<Rightarrow> (case f t (data n) of Inl e \<Rightarrow> Some (Inl e)
              | Inr s' \<Rightarrow> (case nodes s' c of None \<Rightarrow> Some (Inl InvalidPointer)
                  | Some n' \<Rightarrow> loop f s' (next n'))))
         else Some (Inr t)) = Some y"
    show "\<not> (f = func \<and> c = p \<and> I t)"
    proof
      assume a: "f = func \<and> c = p \<and> I t"
      from a step obtain t' where t': "nodes t p = Some n" "func t (data n) = Inr t'" "I t'"
        by blast
      from step[OF t'(3)] have n': "nodes t' p = Some n" by simp
      from body a nz t' n' self have "loop func t' p = Some y" by simp
      from IH[OF this] t'(3) show False by simp
    qed
  qed
  then show ?thesis using init by (cases "list_foreach_loop func s p") auto
qed

lemma list_insert_empty:
  assumes "lists s list = Some l" "head l = NULL"
  shows "list_insert s list d =
    Inr (s\<lparr>brk := Suc (brk s),
           nodes := (nodes s)(Suc (brk s) \<mapsto>
                      \<lparr>data = d, next = Suc (brk s), prev = Suc (brk s)\<rparr>),
           lists := (lists s)(list \<mapsto> l\<lparr>head := Suc (brk s), count := count l + 1\<rparr>)\<rparr>)"
  using assms by (simp add: list_insert_def malloc_def Let_def)

text \<open>Removing the node that \<open>list_insert\<close> put into an empty list: the node's \<open>prev\<close>
  is the node itself, so \<open>list_remove\<close> takes the branch that leaves \<open>list->head\<close> alone,
  and the head still points to the node after it has been freed.\<close>

lemma list_remove_after_insert_empty:
  assumes "lists s list = Some l" "head l = NULL"
  shows "\<exists>s1 s2 l2. list_insert s list d = Inr s1
     \<and> list_find s1 list d = Some (Inr (Suc (brk s)))
     \<and> list_remove s1 list (Suc (brk s)) = Inr s2
     \<and> lists s2 list = Some l2 \<and> head l2 = Suc (brk s) \<and> nodes s2 (head l2) = None"
proof -
  let ?a = "Suc (brk s)"
  let ?la = "l\<lparr>head := ?a, count := count l + 1\<rparr>"
  let ?s1 = "s\<lparr>brk := ?a, nodes := (nodes s)(?a \<mapsto> \<lparr>data = d, next = ?a, prev = ?a\<rparr>),
           lists := (lists s)(list \<mapsto> ?la)\<rparr>"
  let ?lb = "?la\<lparr>count := count ?la - 1\<rparr>"
  let ?s2 = "?s1\<lparr>nodes := (nodes ?s1)(?a := None), lists := (lists ?s1)(list \<mapsto> ?lb)\<rparr>"
  have i: "list_insert s list d = Inr ?s1" by (rule list_insert_empty[OF assms])
  have f: "list_find ?s1 list d = Some (Inr ?a)"
    by (simp add: list_find_def list_find_loop.simps[of _ ?a])
  have r: "list_remove ?s1 list ?a = Inr ?s2"
    by (simp add: list_remove_def)
  have e: "lists ?s2 list = Some ?lb" "head ?lb = ?a" "nodes ?s2 (head ?lb) = None" by simp_all
  show ?thesis
    apply (rule exI[of _ ?s1], rule exI[of _ ?s2], rule exI[of _ ?lb])
    using i f r e by (simp only: simp_thms)
qed

section \<open>The channel operations on a channel with a well-formed list\<close>

lemma try_send_success:
  assumes "channels s c = Some ch" "\<not> is_closed ch" "selectors s ch ts"
    "length (contents (buffer ch)) < capacity (buffer ch)"
  shows "channel_non_blocking_send s c v =
    Some (Inr (s\<lparr>channels := (channels s)(c \<mapsto>
                   ch\<lparr>buffer := (buffer ch)\<lparr>contents := contents (buffer ch) @ [v]\<rparr>\<rparr>),
                 sems := posted ts (sems s)\<rparr>, SUCCESS))"
  using assms
  by (simp add: channel_non_blocking_send_def buffer_add_def
      post_selectors_registered[OF assms(3)])

lemma try_send_full:
  assumes "channels s c = Some ch" "\<not> is_closed ch"
    "capacity (buffer ch) \<le> length (contents (buffer ch))"
  shows "channel_non_blocking_send s c v = Some (Inr (s, CHANNEL_FULL))"
  using assms by (simp add: channel_non_blocking_send_def buffer_add_def)

lemma try_receive_success:
  assumes "channels s c = Some ch" "\<not> is_closed ch" "selectors s ch ts"
    "contents (buffer ch) = x # xs"
  shows "channel_non_blocking_receive s c d =
    Some (Inr (s\<lparr>channels := (channels s)(c \<mapsto> ch\<lparr>buffer := (buffer ch)\<lparr>contents := xs\<rparr>\<rparr>),
                 mem := (mem s)(d := x),
                 sems := posted ts (sems s)\<rparr>, SUCCESS))"
  using assms
  by (simp add: channel_non_blocking_receive_def buffer_remove_def
      post_selectors_registered[OF assms(3)])

lemma try_receive_empty:
  assumes "channels s c = Some ch" "\<not> is_closed ch" "contents (buffer ch) = []"
  shows "channel_non_blocking_receive s c d = Some (Inr (s, CHANNEL_EMPTY))"
  using assms by (simp add: channel_non_blocking_receive_def buffer_remove_def)

lemma send_success:
  assumes "channels s c = Some ch" "\<not> is_closed ch" "selectors s ch ts"
    "length (contents (buffer ch)) < capacity (buffer ch)"
  shows "channel_send s c v =
    Some (Inr (s\<lparr>channels := (channels s)(c \<mapsto>
                   ch\<lparr>buffer := (buffer ch)\<lparr>contents := contents (buffer ch) @ [v]\<rparr>\<rparr>),
                 sems := posted ts (sems s)\<rparr>, SUCCESS))"
  using assms
  by (simp add: channel_send_def channel_send_loop.simps[of s] buffer_add_def
      post_selectors_registered[OF assms(3)])

lemma receive_success:
  assumes "channels s c = Some ch" "\<not> is_closed ch" "selectors s ch ts"
    "contents (buffer ch) = x # xs"
  shows "channel_receive s c d =
    Some (Inr (s\<lparr>channels := (channels s)(c \<mapsto> ch\<lparr>buffer := (buffer ch)\<lparr>contents := xs\<rparr>\<rparr>),
                 mem := (mem s)(d := x),
                 sems := posted ts (sems s)\<rparr>, SUCCESS))"
  using assms
  by (simp add: channel_receive_def channel_receive_loop.simps[of s] buffer_remove_def
      post_selectors_registered[OF assms(3)])

lemma close_success:
  assumes "channels s c = Some ch" "\<not> is_closed ch" "selectors s ch ts"
  shows "channel_close s c =
    Some (Inr (s\<lparr>channels := (channels s)(c \<mapsto> ch\<lparr>is_closed := True\<rparr>),
                 sems := posted ts (sems s)\<rparr>, SUCCESS))"
  using assms
  by (simp add: channel_close_def post_selectors_registered[OF assms(3)])

lemma selectors_cong:
  "lists s' = lists s \<Longrightarrow> nodes s' = nodes s \<Longrightarrow> dom (sems s') = dom (sems s) \<Longrightarrow>
   select ch' = select ch \<Longrightarrow> selectors s' ch' ts = selectors s ch ts"
  by (cases "select ch = NULL")
     (auto simp: selectors_def list_all_iff dom_def set_eq_iff split: option.splits)

lemma channel_create_effect:
  "channel_create s sz =
    (Suc (brk s),
     s\<lparr>brk := Suc (Suc (brk s)),
       lists := (lists s)(Suc (Suc (brk s)) \<mapsto> \<lparr>head = NULL, count = 0\<rparr>),
       channels := (channels s)(Suc (brk s) \<mapsto>
          \<lparr>buffer = \<lparr>capacity = sz, contents = []\<rparr>, is_closed = False,
           select = Suc (Suc (brk s))\<rparr>)\<rparr>)"
  by (simp add: channel_create_def list_create_def malloc_def buffer_create_def)

section \<open>Waiting on a semaphore that nobody posts\<close>

lemma sem_wait_blocked: "sems s sem = Some 0 \<Longrightarrow> sem_wait s sem = None"
proof -
  assume z: "sems s sem = Some 0"
  have "sems s sem \<noteq> Some 0" if "sem_wait s sem = Some y" for y
    by (rule sem_wait.raw_induct[where P = "\<lambda>s sem y. sems s sem \<noteq> Some 0", OF _ that])
       (auto split: option.splits nat.splits)
  with z show ?thesis by (cases "sem_wait s sem") auto
qed

lemma selectors_live: "selectors s ch ts \<Longrightarrow> list_all (\<lambda>t. sems s t \<noteq> None) ts"
  by (cases "select ch = NULL") (simp_all add: selectors_def)

section \<open>The buffer of an open channel is a queue\<close>

lemma selectors_after_update:
  assumes "selectors s ch ts" "lists s' = lists s" "nodes s' = nodes s"
    "sems s' = posted ts (sems s)" "select ch' = select ch"
  shows "selectors s' ch' ts"
  using assms
  by (cases "select ch = NULL")
     (auto simp: selectors_def list_all_iff posted_None split: option.splits)

lemma try_send_step:
  assumes "channels s c = Some ch" and "\<not> is_closed ch" and "selectors s ch ts"
    and free: "length (contents (buffer ch)) < capacity (buffer ch)"
  shows "\<exists>s' ch'. channel_non_blocking_send s c v = Some (Inr (s', SUCCESS))
               \<and> channels s' c = Some ch' \<and> \<not> is_closed ch' \<and> selectors s' ch' ts
               \<and> capacity (buffer ch') = capacity (buffer ch)
               \<and> contents (buffer ch') = contents (buffer ch) @ [v]"
proof -
  let ?ch' = "ch\<lparr>buffer := (buffer ch)\<lparr>contents := contents (buffer ch) @ [v]\<rparr>\<rparr>"
  let ?s' = "s\<lparr>channels := (channels s)(c \<mapsto> ?ch'),
               sems := posted ts (sems s)\<rparr>"
  have "selectors ?s' ?ch' ts"
    by (rule selectors_after_update[OF assms(3)]) simp_all
  with assms(2) try_send_success[OF assms, of v] show ?thesis
    by (intro exI[of _ ?s'] exI[of _ ?ch']) simp
qed

lemma try_receive_step:
  assumes "channels s c = Some ch" and "\<not> is_closed ch" and "selectors s ch ts"
    and ne: "contents (buffer ch) = x # xs"
  shows "\<exists>s' ch'. channel_non_blocking_receive s c d = Some (Inr (s', SUCCESS))
               \<and> mem s' d = x
               \<and> channels s' c = Some ch' \<and> \<not> is_closed ch' \<and> selectors s' ch' ts
               \<and> capacity (buffer ch') = capacity (buffer ch)
               \<and> contents (buffer ch') = xs"
proof -
  let ?ch' = "ch\<lparr>buffer := (buffer ch)\<lparr>contents := xs\<rparr>\<rparr>"
  let ?s' = "s\<lparr>channels := (channels s)(c \<mapsto> ?ch'), mem := (mem s)(d := x),
               sems := posted ts (sems s)\<rparr>"
  have "selectors ?s' ?ch' ts"
    by (rule selectors_after_update[OF assms(3)]) simp_all
  with assms(2) try_receive_success[OF assms, of d] show ?thesis
    by (intro exI[of _ ?s'] exI[of _ ?ch']) simp
qed

section \<open>channel\_select: the early return and the sweep\<close>

text \<open>Registration with two entries, the first channel open with an empty list, the
  second channel closed.\<close>

lemma select_register_closed_second:
  assumes "channels s c0 = Some ch0" "\<not> is_closed ch0"
    "lists s (select ch0) = Some l0" "head l0 = NULL"
    "channels s c1 = Some ch1" "is_closed ch1"
  shows "select_register s sem
           [\<lparr>channel = c0, dir = d0, sdata = x0\<rparr>, \<lparr>channel = c1, dir = d1, sdata = x1\<rparr>] =
         Inr (s\<lparr>brk := Suc (brk s),
                  nodes := (nodes s)(Suc (brk s) \<mapsto>
                      \<lparr>data = sem, next = Suc (brk s), prev = Suc (brk s)\<rparr>),
                  lists := (lists s)(select ch0 \<mapsto>
                      l0\<lparr>head := Suc (brk s), count := count l0 + 1\<rparr>),
                  sems := (sems s)(sem := None)\<rparr>, True)"
  using assms by (simp add: list_insert_empty sem_destroy_def)

lemma select_closed_second:
  assumes "channels s c0 = Some ch0" "\<not> is_closed ch0"
    "lists s (select ch0) = Some l0" "head l0 = NULL"
    "channels s c1 = Some ch1" "is_closed ch1"
  shows "channel_select s
           [\<lparr>channel = c0, dir = d0, sdata = x0\<rparr>, \<lparr>channel = c1, dir = d1, sdata = x1\<rparr>]
           selected_index =
         Some (Inr (s\<lparr>brk := Suc (Suc (brk s)),
                  nodes := (nodes s)(Suc (Suc (brk s)) \<mapsto>
                      \<lparr>data = Suc (brk s), next = Suc (Suc (brk s)), prev = Suc (Suc (brk s))\<rparr>),
                  lists := (lists s)(select ch0 \<mapsto>
                      l0\<lparr>head := Suc (Suc (brk s)), count := count l0 + 1\<rparr>),
                  sems := (sems s)(Suc (brk s) := None)\<rparr>, CLOSED_ERROR))"
proof -
  let ?s1 = "sem_init (s\<lparr>brk := Suc (brk s)\<rparr>) (Suc (brk s)) 0"
  have "select_register ?s1 (Suc (brk s))
           [\<lparr>channel = c0, dir = d0, sdata = x0\<rparr>, \<lparr>channel = c1, dir = d1, sdata = x1\<rparr>] =
         Inr (?s1\<lparr>brk := Suc (brk ?s1),
                  nodes := (nodes ?s1)(Suc (brk ?s1) \<mapsto>
                      \<lparr>data = Suc (brk s), next = Suc (brk ?s1), prev = Suc (brk ?s1)\<rparr>),
                  lists := (lists ?s1)(select ch0 \<mapsto>
                      l0\<lparr>head := Suc (brk ?s1), count := count l0 + 1\<rparr>),
                  sems := (sems ?s1)(Suc (brk s) := None)\<rparr>, True)"
    by (rule select_register_closed_second) (use assms in \<open>simp_all add: sem_init_def\<close>)
  then show ?thesis
    by (simp add: channel_select_def malloc_def) (simp add: sem_init_def)
qed

text \<open>Posting along a list whose first node points to itself.\<close>

lemma list_foreach_loop_self_sem_post:
  assumes "nodes t a = Some n" "next n = a" "a \<noteq> NULL" "sems t (data n) \<noteq> None"
  shows "list_foreach_loop sem_post t a = None"
proof (rule list_foreach_loop_cycle
    [where I = "\<lambda>u. nodes u a = Some n \<and> sems u (data n) \<noteq> None" and n = n])
  fix u :: state assume "nodes u a = Some n \<and> sems u (data n) \<noteq> None"
  then show "nodes u a = Some n \<and>
      (\<exists>t'. sem_post u (data n) = Inr t' \<and> nodes t' a = Some n \<and> sems t' (data n) \<noteq> None)"
    by (auto simp: sem_post_def)
qed (use assms in simp_all)

lemma try_receive_cyclic_selectors:
  assumes "channels t c = Some ch" "\<not> is_closed ch" "contents (buffer ch) = x # xs"
    "select ch \<noteq> NULL" "lists t (select ch) = Some l" "head l \<noteq> NULL"
    "nodes t (head l) = Some n" "next n = head l" "sems t (data n) \<noteq> None"
  shows "channel_non_blocking_receive t c d = None"
proof -
  let ?t' = "t\<lparr>channels := (channels t)(c \<mapsto> ch\<lparr>buffer := (buffer ch)\<lparr>contents := xs\<rparr>\<rparr>),
               mem := (mem t)(d := x)\<rparr>"
  have "list_foreach_loop sem_post ?t' (head l) = None"
    by (rule list_foreach_loop_self_sem_post[where n = n]) (use assms in simp_all)
  then have "post_selectors ?t' ch SUCCESS = None"
    using assms by (simp add: post_selectors_def list_foreach_def)
  then show ?thesis
    using assms by (simp add: channel_non_blocking_receive_def buffer_remove_def)
qed

lemma select_register_two_open:
  assumes "channels s c1 = Some ch1" "\<not> is_closed ch1"
    "lists s (select ch1) = Some l1" "head l1 = NULL"
    "channels s c2 = Some ch2" "\<not> is_closed ch2"
    "lists s (select ch2) = Some l2" "head l2 = NULL" "select ch2 \<noteq> select ch1"
  shows "select_register s sem
           [\<lparr>channel = c1, dir = d1, sdata = x1\<rparr>, \<lparr>channel = c2, dir = d2, sdata = x2\<rparr>] =
         Inr (s\<lparr>brk := Suc (Suc (brk s)),
                  nodes := (nodes s)
                    (Suc (brk s) \<mapsto> \<lparr>data = sem, next = Suc (brk s), prev = Suc (brk s)\<rparr>,
                     Suc (Suc (brk s)) \<mapsto>
                        \<lparr>data = sem, next = Suc (Suc (brk s)), prev = Suc (Suc (brk s))\<rparr>),
                  lists := (lists s)
                    (select ch1 \<mapsto> l1\<lparr>head := Suc (brk s), count := count l1 + 1\<rparr>,
                     select ch2 \<mapsto> l2\<lparr>head := Suc (Suc (brk s)), count := count l2 + 1\<rparr>)\<rparr>,
              False)"
  using assms by (simp add: list_insert_empty)

lemma select_first_receive_ready_diverges:
  assumes "channels s c1 = Some ch1" "\<not> is_closed ch1"
    "lists s (select ch1) = Some l1" "head l1 = NULL"
    "channels s c2 = Some ch2" "\<not> is_closed ch2"
    "lists s (select ch2) = Some l2" "head l2 = NULL" "select ch2 \<noteq> select ch1"
    and ready: "contents (buffer ch1) = x # xs" and sel: "select ch1 \<noteq> NULL"
  shows "channel_select s
           [\<lparr>channel = c1, dir = RECV, sdata = d\<rparr>, \<lparr>channel = c2, dir = d2, sdata = v\<rparr>]
           selected_index = None"
proof -
  let ?cl = "[\<lparr>channel = c1, dir = RECV, sdata = d\<rparr>, \<lparr>channel = c2, dir = d2, sdata = v\<rparr>]"
  let ?tok = "Suc (brk s)"
  let ?s1 = "sem_init (s\<lparr>brk := ?tok\<rparr>) ?tok 0"
  let ?a = "Suc ?tok"
  let ?b = "Suc ?a"
  let ?n = "\<lparr>data = ?tok, next = ?a, prev = ?a\<rparr>"
  let ?la = "l1\<lparr>head := ?a, count := count l1 + 1\<rparr>"
  let ?sB = "?s1\<lparr>brk := ?b,
                  nodes := (nodes ?s1)(?a \<mapsto> ?n, ?b \<mapsto> \<lparr>data = ?tok, next = ?b, prev = ?b\<rparr>),
                  lists := (lists ?s1)(select ch1 \<mapsto> ?la,
                     select ch2 \<mapsto> l2\<lparr>head := ?b, count := count l2 + 1\<rparr>)\<rparr>"
  have reg: "select_register ?s1 ?tok ?cl = Inr (?sB, False)"
    using select_register_two_open[of ?s1 c1 ch1 l1 c2 ch2 l2 ?tok RECV d d2 v] assms
    by (simp add: sem_init_def)
  have recv: "channel_non_blocking_receive ?sB c1 d = None"
    by (rule try_receive_cyclic_selectors[where ch = ch1 and l = ?la and n = ?n])
       (use assms in \<open>simp_all add: sem_init_def\<close>)
  have loop: "select_loop ?sB ?tok ?cl selected_index = None"
    by (subst select_loop.simps) (simp add: recv)
  show ?thesis
    unfolding channel_select_def malloc_def Let_def prod.case reg
    by (simp add: loop)
qed

text \<open>The stores of the early-return scenario: two channels of capacity 1
  are created from the initial store and the second one is closed.\<close>

lemma two_channels_second_closed:
  "\<exists>s1 s2 s3 ch0 ch1.
     channel_create init 1 = (1, s1) \<and> channel_create s1 1 = (3, s2)
   \<and> channel_close s2 3 = Some (Inr (s3, SUCCESS))
   \<and> channels s3 1 = Some ch0 \<and> \<not> is_closed ch0 \<and> select ch0 = 2
   \<and> lists s3 2 = Some \<lparr>head = NULL, count = 0\<rparr>
   \<and> channels s3 3 = Some ch1 \<and> is_closed ch1 \<and> brk s3 = 4 \<and> mem s3 = (\<lambda>a. 0)
   \<and> sems s3 = Map.empty"
proof -
  let ?ch0 = "\<lparr>buffer = \<lparr>capacity = 1, contents = []\<rparr>, is_closed = False, select = 2\<rparr>"
  let ?ch1 = "\<lparr>buffer = \<lparr>capacity = 1, contents = []\<rparr>, is_closed = False, select = 4\<rparr>"
  let ?s1 = "snd (channel_create init 1)"
  let ?s2 = "snd (channel_create ?s1 1)"
  let ?s3 = "?s2\<lparr>channels := (channels ?s2)(3 \<mapsto> ?ch1\<lparr>is_closed := True\<rparr>)\<rparr>"
  have c0: "channel_create init 1 = (1, ?s1)"
    by (simp add: channel_create_effect init_def)
  have c1: "channel_create ?s1 1 = (3, ?s2)"
    by (simp add: channel_create_effect init_def)
  have h: "channels ?s2 3 = Some ?ch1" "\<not> is_closed ?ch1" "selectors ?s2 ?ch1 []"
    by (simp_all add: channel_create_effect init_def selectors_def)
  have cl: "channel_close ?s2 3 = Some (Inr (?s3, SUCCESS))"
    using close_success[OF h] by (simp add: posted_Nil)
  have r: "channels ?s3 1 = Some ?ch0" "\<not> is_closed ?ch0" "select ?ch0 = 2"
    "lists ?s3 2 = Some \<lparr>head = NULL, count = 0\<rparr>"
    "channels ?s3 3 = Some (?ch1\<lparr>is_closed := True\<rparr>)" "is_closed (?ch1\<lparr>is_closed := True\<rparr>)"
    "brk ?s3 = 4" "mem ?s3 = (\<lambda>a. 0)" "sems ?s3 = Map.empty"
    by (simp_all add: channel_create_effect init_def)
  show ?thesis
    by (intro exI[of _ ?s1] exI[of _ ?s2] exI[of _ ?s3] exI[of _ ?ch0]
        exI[of _ "?ch1\<lparr>is_closed := True\<rparr>"] conjI c0 c1 cl r)
qed

section \<open>What a returning traversal says about the list\<close>

lemma list_foreach_loop_returns:
  assumes "list_foreach_loop sem_post s p = Some (Inr s')"
  shows "\<exists>ts. registered (nodes s) p ts \<and> list_all (\<lambda>t. sems s t \<noteq> None) ts"
proof -
  have gen: "f = sem_post \<longrightarrow> (\<forall>s'. r = Inr s' \<longrightarrow>
      (\<exists>ts. registered (nodes t) c ts \<and> list_all (\<lambda>x. sems t x \<noteq> None) ts))"
    if "list_foreach_loop f t c = Some r" for f t c r
  proof (rule list_foreach_loop.raw_induct[where P = "\<lambda>f s p r. f = sem_post \<longrightarrow> (\<forall>s'. r = Inr s' \<longrightarrow>
      (\<exists>ts. registered (nodes s) p ts \<and> list_all (\<lambda>t. sems s t \<noteq> None) ts))", OF _ that])
    fix loop f t c r
    assume IH: "\<And>f t c r. loop f t c = Some r \<Longrightarrow> f = sem_post \<longrightarrow> (\<forall>s'. r = Inr s' \<longrightarrow>
      (\<exists>ts. registered (nodes t) c ts \<and> list_all (\<lambda>x. sems t x \<noteq> None) ts))"
      and body: "(if c \<noteq> NULL then
          (case nodes t c of None \<Rightarrow> Some (Inl InvalidPointer)
           | Some n \<Rightarrow> (case f t (data n) of Inl e \<Rightarrow> Some (Inl e)
              | Inr s' \<Rightarrow> (case nodes s' c of None \<Rightarrow> Some (Inl InvalidPointer)
                  | Some n' \<Rightarrow> loop f s' (next n'))))
         else Some (Inr t)) = Some r"
    show "f = sem_post \<longrightarrow> (\<forall>s'. r = Inr s' \<longrightarrow>
      (\<exists>ts. registered (nodes t) c ts \<and> list_all (\<lambda>x. sems t x \<noteq> None) ts))"
    proof (intro impI allI)
      fix s' assume f: "f = sem_post" and r: "r = Inr s'"
      show "\<exists>ts. registered (nodes t) c ts \<and> list_all (\<lambda>x. sems t x \<noteq> None) ts"
      proof (cases "c = NULL")
        case True
        then have "registered (nodes t) c [] \<and> list_all (\<lambda>x. sems t x \<noteq> None) []" by simp
        then show ?thesis ..
      next
        case False
        with body f r obtain n where n: "nodes t c = Some n"
          by (auto split: option.splits)
        have "sems t (data n) \<noteq> None"
          using body f r False n by (auto simp: sem_post_def split: option.splits)
        then obtain k where k: "sems t (data n) = Some k" by auto
        have rec: "loop sem_post (t\<lparr>sems := (sems t)(data n \<mapsto> posts 1 k)\<rparr>) (next n) =
                      Some (Inr s')"
          using body f r False n by (simp add: sem_post_live[OF k])
        from IH[OF rec] obtain ts where
          reg: "registered (nodes t) (next n) ts" and
          live1: "list_all (\<lambda>x. sems (t\<lparr>sems := (sems t)(data n \<mapsto> posts 1 k)\<rparr>) x \<noteq> None) ts"
          by auto
        have live: "list_all (\<lambda>x. sems t x \<noteq> None) ts"
          using live1 k by (auto simp: list_all_iff split: if_splits)
        have "registered (nodes t) c (data n # ts) \<and>
              list_all (\<lambda>x. sems t x \<noteq> None) (data n # ts)"
          using False n k reg live by simp
        then show ?thesis ..
      qed
    qed
  qed
  from gen[OF assms] show ?thesis by simp
qed

lemma post_selectors_returns:
  assumes "post_selectors s ch st = Some (Inr (s', st'))"
  shows "\<exists>ts. selectors s ch ts \<and> st' = st \<and>
           s' = s\<lparr>sems := posted ts (sems s)\<rparr>"
proof (cases "select ch = NULL")
  case True
  with assms have "selectors s ch [] \<and> st' = st \<and>
      s' = s\<lparr>sems := posted [] (sems s)\<rparr>"
    by (simp add: post_selectors_def selectors_def posted_Nil)
  then show ?thesis ..
next
  case False
  with assms obtain l s1 where l: "lists s (select ch) = Some l"
    and run: "list_foreach_loop sem_post s (head l) = Some (Inr s1)" and e: "s' = s1" "st' = st"
    by (auto simp: post_selectors_def list_foreach_def split: option.splits sum.splits)
  from list_foreach_loop_returns[OF run] obtain ts where
    ts: "registered (nodes s) (head l) ts" "list_all (\<lambda>t. sems s t \<noteq> None) ts" by blast
  from list_foreach_loop_registered[OF ts] run e
  have "s' = s\<lparr>sems := posted ts (sems s)\<rparr>" by simp
  moreover have "selectors s ch ts" using False l ts by (simp add: selectors_def)
  ultimately have "selectors s ch ts \<and> st' = st \<and>
      s' = s\<lparr>sems := posted ts (sems s)\<rparr>"
    using e by simp
  then show ?thesis ..
qed

lemma post_selectors_frame:
  assumes "post_selectors s ch st = Some (Inr (s', st'))"
  shows "st' = st \<and> channels s' = channels s \<and> mem s' = mem s \<and> lists s' = lists s
       \<and> nodes s' = nodes s \<and> brk s' = brk s"
  using post_selectors_returns[OF assms] by auto

section \<open>Blocking send and receive with no other thread\<close>

text \<open>With the buffer full (or empty) and the channel open, the wait loop of
  \<open>channel_send\<close> (or \<open>channel_receive\<close>) never ends: no other thread changes the channel.\<close>

lemma channel_send_loop_blocked:
  assumes "channels s c = Some ch" "\<not> is_closed ch"
    "capacity (buffer ch) \<le> length (contents (buffer ch))"
  shows "channel_send_loop s c v = None"
proof -
  have no: "\<not> (\<exists>ch. channels t a = Some ch \<and> \<not> is_closed ch \<and>
            capacity (buffer ch) \<le> length (contents (buffer ch)))"
    if "channel_send_loop t a d = Some r" for t a d r
  proof (rule channel_send_loop.raw_induct[where P = "\<lambda>t a d r.
          \<not> (\<exists>ch. channels t a = Some ch \<and> \<not> is_closed ch \<and>
            capacity (buffer ch) \<le> length (contents (buffer ch)))", OF _ that], goal_cases)
    case (1 loop t a d r)
    show ?case
    proof
      assume "\<exists>ch. channels t a = Some ch \<and> \<not> is_closed ch \<and>
            capacity (buffer ch) \<le> length (contents (buffer ch))"
      then obtain ch where ch: "channels t a = Some ch" "\<not> is_closed ch"
        "capacity (buffer ch) \<le> length (contents (buffer ch))" by blast
      with 1(2) have "loop t a d = Some r" by (simp add: buffer_add_def)
      from 1(1)[OF this] ch show False by blast
    qed
  qed
  show ?thesis
  proof (cases "channel_send_loop s c v")
    case (Some r)
    from no[OF Some] assms show ?thesis by blast
  qed simp
qed

lemma channel_receive_loop_blocked:
  assumes "channels s c = Some ch" "\<not> is_closed ch" "contents (buffer ch) = []"
  shows "channel_receive_loop s c d = None"
proof -
  have no: "\<not> (\<exists>ch. channels t a = Some ch \<and> \<not> is_closed ch \<and> contents (buffer ch) = [])"
    if "channel_receive_loop t a d = Some r" for t a d r
  proof (rule channel_receive_loop.raw_induct[where P = "\<lambda>t a d r.
          \<not> (\<exists>ch. channels t a = Some ch \<and> \<not> is_closed ch \<and> contents (buffer ch) = [])",
          OF _ that], goal_cases)
    case (1 loop t a d r)
    show ?case
    proof
      assume "\<exists>ch. channels t a = Some ch \<and> \<not> is_closed ch \<and> contents (buffer ch) = []"
      then obtain ch where ch: "channels t a = Some ch" "\<not> is_closed ch"
        "contents (buffer ch) = []" by blast
      with 1(2) have "loop t a d = Some r" by (simp add: buffer_remove_def)
      from 1(1)[OF this] ch show False by blast
    qed
  qed
  show ?thesis
  proof (cases "channel_receive_loop s c d")
    case (Some r)
    from no[OF Some] assms show ?thesis by blast
  qed simp
qed

section \<open>The closed flags\<close>

lemma list_insert_channels: "list_insert s list d = Inr s' \<Longrightarrow> channels s' = channels s"
  by (auto simp: list_insert_def malloc_def Let_def split: option.splits)

lemma closed_flag_buffer_update:
  assumes "channels s c = Some ch" "channels s' = (channels s)(c \<mapsto> ch\<lparr>buffer := b\<rparr>)"
  shows "closed_flag s' = closed_flag s"
  using assms by (auto simp: closed_flag_def fun_eq_iff)

lemma closed_flag_same_channels: "channels s' = channels s \<Longrightarrow> closed_flag s' = closed_flag s"
  by (simp add: closed_flag_def fun_eq_iff)

lemma sem_wait_channels: 
  assumes "sem_wait s sem = Some (Inr s')" shows "channels s' = channels s"
proof -
  have "\<forall>t'. r = Inr t' \<longrightarrow> channels t' = channels t" if "sem_wait t a = Some r" for t a r
  proof (rule sem_wait.raw_induct[where P = "\<lambda>t a r. \<forall>t'. r = Inr t' \<longrightarrow> channels t' = channels t",
          OF _ that], goal_cases)
    case (1 loop t a r)
    show ?case
    proof (cases "sems t a")
      case None
      with 1(2) show ?thesis by auto
    next
      case (Some k)
      show ?thesis
      proof (cases k)
        case 0
        with Some 1(2) have "loop t a = Some r" by simp
        from 1(1)[OF this] show ?thesis .
      next
        case (Suc m)
        with Some 1(2) show ?thesis by auto
      qed
    qed
  qed
  from this[OF assms] show ?thesis by simp
qed

lemma list_remove_channels: "list_remove s list node = Inr s' \<Longrightarrow> channels s' = channels s"
  unfolding list_remove_def
  by (simp split: option.splits if_splits sum.splits prod.splits) auto

lemma post_selectors_flags:
  assumes "post_selectors (s\<lparr>channels := (channels s)(c \<mapsto> ch\<lparr>buffer := b\<rparr>), mem := m\<rparr>) ch st
             = Some (Inr (s', st'))"
    and "channels s c = Some ch"
  shows "closed_flag s' = closed_flag s"
proof -
  from post_selectors_frame[OF assms(1)]
  have "channels s' = (channels s)(c \<mapsto> ch\<lparr>buffer := b\<rparr>)" by simp
  with assms(2) show ?thesis by (rule closed_flag_buffer_update)
qed

lemma try_send_flags:
  assumes "channel_non_blocking_send s c v = Some (Inr (s', st))"
  shows "closed_flag s' = closed_flag s"
proof (cases "channels s c")
  case None
  with assms show ?thesis by (simp add: channel_non_blocking_send_def)
next
  case (Some ch)
  show ?thesis
  proof (cases "is_closed ch \<or> capacity (buffer ch) \<le> length (contents (buffer ch))")
    case True
    with assms Some have "s' = s"
      by (auto simp: channel_non_blocking_send_def buffer_add_def split: if_splits)
    then show ?thesis by simp
  next
    case False
    with assms Some have "post_selectors
        (s\<lparr>channels := (channels s)(c \<mapsto> ch\<lparr>buffer := (buffer ch)\<lparr>contents := contents (buffer ch) @ [v]\<rparr>\<rparr>),
           mem := mem s\<rparr>) ch SUCCESS = Some (Inr (s', st))"
      by (simp add: channel_non_blocking_send_def buffer_add_def)
    from post_selectors_flags[OF this Some] show ?thesis .
  qed
qed

lemma try_receive_flags:
  assumes "channel_non_blocking_receive s c d = Some (Inr (s', st))"
  shows "closed_flag s' = closed_flag s"
proof (cases "channels s c")
  case None
  with assms show ?thesis by (simp add: channel_non_blocking_receive_def)
next
  case (Some ch)
  show ?thesis
  proof (cases "is_closed ch \<or> contents (buffer ch) = []")
    case True
    with assms Some have "s' = s"
      by (auto simp: channel_non_blocking_receive_def buffer_remove_def split: if_splits)
    then show ?thesis by simp
  next
    case False
    then obtain x xs where xs: "contents (buffer ch) = x # xs"
      by (cases "contents (buffer ch)") auto
    with False assms Some have "post_selectors
        (s\<lparr>channels := (channels s)(c \<mapsto> ch\<lparr>buffer := (buffer ch)\<lparr>contents := xs\<rparr>\<rparr>),
           mem := (mem s)(d := x)\<rparr>) ch SUCCESS = Some (Inr (s', st))"
      by (simp add: channel_non_blocking_receive_def buffer_remove_def)
    from post_selectors_flags[OF this Some] show ?thesis .
  qed
qed

lemma send_flags:
  assumes "channel_send s c v = Some (Inr (s', st))"
  shows "closed_flag s' = closed_flag s"
proof (cases "channels s c")
  case None
  with assms show ?thesis by (simp add: channel_send_def)
next
  case (Some ch)
  show ?thesis
  proof (cases "is_closed ch")
    case True
    with assms Some have "s' = s" by (simp add: channel_send_def)
    then show ?thesis by simp
  next
    case opn: False
    show ?thesis
    proof (cases "capacity (buffer ch) \<le> length (contents (buffer ch))")
      case True
      from channel_send_loop_blocked[OF Some opn True, of v] assms Some opn
      show ?thesis by (simp add: channel_send_def)
    next
      case False
      with assms Some opn have "post_selectors
        (s\<lparr>channels := (channels s)(c \<mapsto> ch\<lparr>buffer := (buffer ch)\<lparr>contents := contents (buffer ch) @ [v]\<rparr>\<rparr>),
           mem := mem s\<rparr>) ch SUCCESS = Some (Inr (s', st))"
        by (simp add: channel_send_def channel_send_loop.simps[of s] buffer_add_def)
      from post_selectors_flags[OF this Some] show ?thesis .
    qed
  qed
qed

lemma receive_flags:
  assumes "channel_receive s c d = Some (Inr (s', st))"
  shows "closed_flag s' = closed_flag s"
proof (cases "channels s c")
  case None
  with assms show ?thesis by (simp add: channel_receive_def)
next
  case (Some ch)
  show ?thesis
  proof (cases "is_closed ch")
    case True
    with assms Some have "s' = s" by (simp add: channel_receive_def)
    then show ?thesis by simp
  next
    case opn: False
    show ?thesis
    proof (cases "contents (buffer ch)")
      case Nil
      from channel_receive_loop_blocked[OF Some opn Nil, of d] assms Some opn
      show ?thesis by (simp add: channel_receive_def)
    next
      case (Cons x xs)
      with assms Some opn have "post_selectors
        (s\<lparr>channels := (channels s)(c \<mapsto> ch\<lparr>buffer := (buffer ch)\<lparr>contents := xs\<rparr>\<rparr>),
           mem := (mem s)(d := x)\<rparr>) ch SUCCESS = Some (Inr (s', st))"
        by (simp add: channel_receive_def channel_receive_loop.simps[of s] buffer_remove_def)
      from post_selectors_flags[OF this Some] show ?thesis .
    qed
  qed
qed

lemma close_flags:
  assumes "channel_close s c = Some (Inr (s', st))"
  shows "(st = CLOSED_ERROR \<and> s' = s \<and> closed_flag s c = Some True)
       \<or> (st = SUCCESS \<and> closed_flag s c = Some False
            \<and> closed_flag s' = (closed_flag s)(c \<mapsto> True))"
proof (cases "channels s c")
  case None
  with assms show ?thesis by (simp add: channel_close_def)
next
  case (Some ch)
  show ?thesis
  proof (cases "is_closed ch")
    case True
    with assms Some show ?thesis by (simp add: channel_close_def closed_flag_def)
  next
    case False
    with assms Some have p: "post_selectors
        (s\<lparr>channels := (channels s)(c \<mapsto> ch\<lparr>is_closed := True\<rparr>)\<rparr>) ch SUCCESS
          = Some (Inr (s', st))"
      by (simp add: channel_close_def)
    from post_selectors_frame[OF p]
    have "st = SUCCESS" "channels s' = (channels s)(c \<mapsto> ch\<lparr>is_closed := True\<rparr>)" by simp_all
    with Some False show ?thesis by (auto simp: closed_flag_def fun_eq_iff)
  qed
qed

lemma select_register_channels:
  "select_register s sem cl = Inr (s', b) \<Longrightarrow> channels s' = channels s"
proof (induction cl arbitrary: s)
  case Nil
  then show ?case by simp
next
  case (Cons x rest)
  from Cons.prems obtain ch where ch: "channels s (channel x) = Some ch"
    by (auto split: option.splits)
  show ?case
  proof (cases "is_closed ch")
    case True
    with Cons.prems ch show ?thesis by (auto simp: sem_destroy_def)
  next
    case False
    with Cons.prems ch obtain s1 where ins: "list_insert s (select ch) sem = Inr s1"
      and rec: "select_register s1 sem rest = Inr (s', b)"
      by (auto split: sum.splits)
    from Cons.IH[OF rec] list_insert_channels[OF ins] show ?thesis by simp
  qed
qed

lemma select_deregister_channels:
  "select_deregister s sem cl = Some (Inr s') \<Longrightarrow> channels s' = channels s"
proof (induction cl arbitrary: s)
  case Nil
  then show ?case by simp
next
  case (Cons x rest)
  from Cons.prems obtain ch node s1 where "channels s (channel x) = Some ch"
    and rm: "list_remove s (select ch) node = Inr s1"
    and rec: "select_deregister s1 sem rest = Some (Inr s')"
    by (auto split: option.splits sum.splits)
  from Cons.IH[OF rec] list_remove_channels[OF rm] show ?case by simp
qed

lemma select_sweep_flags:
  "select_sweep s sem cl idx i rest = Some (Inr (s', r)) \<Longrightarrow> closed_flag s' = closed_flag s"
proof (induction rest arbitrary: s i)
  case Nil
  then show ?case by simp
next
  case (Cons x rest)
  let ?op = "case dir x of
              SEND \<Rightarrow> channel_non_blocking_send s (channel x) (sdata x)
            | RECV \<Rightarrow> channel_non_blocking_receive s (channel x) (sdata x)"
  from Cons.prems obtain s1 status where op: "?op = Some (Inr (s1, status))"
    by (auto split: option.splits sum.splits)
  have f1: "closed_flag s1 = closed_flag s"
    using op try_send_flags try_receive_flags by (cases "dir x") auto
  show ?case
  proof (cases "status = SUCCESS \<or> status = GEN_ERROR \<or> status = DESTROY_ERROR
               \<or> status = CLOSED_ERROR")
    case True
    with Cons.prems op obtain s2 where de: "select_deregister s1 sem cl = Some (Inr s2)"
      and e: "s' = sem_destroy (s2\<lparr>mem := (mem s2)(idx := i)\<rparr>) sem"
      by (auto split: option.splits sum.splits)
    from select_deregister_channels[OF de] e have "channels s' = channels s1"
      by (simp add: sem_destroy_def)
    from closed_flag_same_channels[OF this] f1 show ?thesis by simp
  next
    case False
    with Cons.prems op have "select_sweep s1 sem cl idx (Suc i) rest = Some (Inr (s', r))"
      by auto
    from Cons.IH[OF this] f1 show ?thesis by simp
  qed
qed

lemma select_loop_flags:
  assumes "select_loop s sem cl idx = Some (Inr (s', st))"
  shows "closed_flag s' = closed_flag s"
proof -
  have "\<forall>t' st. r = Inr (t', st) \<longrightarrow> closed_flag t' = closed_flag t"
    if "select_loop t a l j = Some r" for t a l j r
  proof (rule select_loop.raw_induct[where P = "\<lambda>t a l j r.
        \<forall>t' st. r = Inr (t', st) \<longrightarrow> closed_flag t' = closed_flag t", OF _ that], goal_cases)
    case (1 loop t a l j r)
    show ?case
    proof (intro allI impI)
      fix t' st assume r: "r = Inr (t', st)"
      from 1(2) r obtain s1 res where sw: "select_sweep t a l j 0 l = Some (Inr (s1, res))"
        by (auto split: option.splits sum.splits)
      note f1 = select_sweep_flags[OF sw]
      show "closed_flag t' = closed_flag t"
      proof (cases res)
        case (Some status)
        with 1(2) r sw have "t' = s1" by simp
        with f1 show ?thesis by simp
      next
        case None
        with 1(2) r sw obtain s2 where w: "sem_wait s1 a = Some (Inr s2)"
          and rec: "loop s2 a l j = Some r"
          by (auto split: option.splits sum.splits)
        from 1(1)[OF rec] r have "closed_flag t' = closed_flag s2" by simp
        with closed_flag_same_channels[OF sem_wait_channels[OF w]] f1 show ?thesis by simp
      qed
    qed
  qed
  from this[OF assms] show ?thesis by simp
qed

lemma select_flags:
  assumes "channel_select s cl idx = Some (Inr (s', st))"
  shows "closed_flag s' = closed_flag s"
proof -
  let ?s1 = "sem_init (s\<lparr>brk := Suc (brk s)\<rparr>) (Suc (brk s)) 0"
  from assms obtain s2 b where reg: "select_register ?s1 (Suc (brk s)) cl = Inr (s2, b)"
    by (auto simp: channel_select_def malloc_def split: sum.splits)
  from select_register_channels[OF reg] have "channels s2 = channels s"
    by (simp add: sem_init_def)
  then have f: "closed_flag s2 = closed_flag s" by (rule closed_flag_same_channels)
  show ?thesis
  proof (cases b)
    case True
    with assms reg have "s' = s2" by (simp add: channel_select_def malloc_def)
    with f show ?thesis by simp
  next
    case False
    with assms reg have "select_loop s2 (Suc (brk s)) cl idx = Some (Inr (s', st))"
      by (simp add: channel_select_def malloc_def)
    from select_loop_flags[OF this] f show ?thesis by simp
  qed
qed

lemma list_destroy_loop_channels:
  assumes "list_destroy_loop s list = Some (Inr s')"
  shows "channels s' = channels s"
proof -
  have "\<forall>t'. r = Inr t' \<longrightarrow> channels t' = channels t"
    if "list_destroy_loop t l = Some r" for t l r
  proof (rule list_destroy_loop.raw_induct[where P = "\<lambda>t l r.
        \<forall>t'. r = Inr t' \<longrightarrow> channels t' = channels t", OF _ that], goal_cases)
    case (1 loop t l r)
    show ?case
    proof (intro allI impI)
      fix t' assume r: "r = Inr t'"
      from 1(2) r obtain li where li: "lists t l = Some li" by (auto split: option.splits)
      show "channels t' = channels t"
      proof (cases "count li = 0")
        case True
        with 1(2) r li show ?thesis by simp
      next
        case False
        with 1(2) r li obtain s1 where rm: "list_remove t l (head li) = Inr s1"
          and rec: "loop s1 l = Some r"
          by (auto split: sum.splits)
        from 1(1)[OF rec] r list_remove_channels[OF rm] show ?thesis by simp
      qed
    qed
  qed
  from this[OF assms] show ?thesis by simp
qed

lemma destroy_flags:
  assumes "channel_destroy s c = Some (Inr (s', st))"
  shows "(st = DESTROY_ERROR \<and> s' = s \<and> closed_flag s c = Some False)
       \<or> (st = SUCCESS \<and> closed_flag s c = Some True
            \<and> closed_flag s' = (closed_flag s)(c := None))"
proof (cases "channels s c")
  case None
  with assms show ?thesis by (simp add: channel_destroy_def)
next
  case (Some ch)
  show ?thesis
  proof (cases "is_closed ch")
    case False
    with assms Some show ?thesis by (simp add: channel_destroy_def closed_flag_def)
  next
    case True
    with assms Some obtain s1 where d: "list_destroy_loop s (select ch) = Some (Inr s1)"
      and e: "s' = s1\<lparr>lists := (lists s1)(select ch := None),
                      channels := (channels s1)(c := None)\<rparr>" "st = SUCCESS"
      by (auto simp: channel_destroy_def list_destroy_def split: option.splits sum.splits)
    from list_destroy_loop_channels[OF d] e Some True show ?thesis
      by (auto simp: closed_flag_def fun_eq_iff)
  qed
qed

lemma create_flags:
  "closed_flag (snd (channel_create s sz)) = (closed_flag s)(fst (channel_create s sz) \<mapsto> False)"
  by (auto simp: channel_create_effect closed_flag_def fun_eq_iff)

section \<open>What a normal return of a channel operation says\<close>

lemma registered_unique:
  "registered h p ts \<Longrightarrow> registered h p ts' \<Longrightarrow> ts = ts'"
proof (induction ts arbitrary: p ts')
  case Nil
  then show ?case by (cases ts') auto
next
  case (Cons t ts)
  then show ?case by (cases ts') (auto split: option.splits)
qed

lemma selectors_unique: "selectors s ch ts \<Longrightarrow> selectors s ch ts' \<Longrightarrow> ts = ts'"
  by (cases "select ch = NULL")
     (auto simp: selectors_def split: option.splits dest: registered_unique)

lemma post_selectors_returns_update:
  assumes "post_selectors (s\<lparr>channels := cs, mem := m\<rparr>) ch st = Some (Inr (s', st'))"
  shows "\<exists>ts. selectors s ch ts \<and> st' = st \<and>
           s' = s\<lparr>channels := cs, mem := m,
                  sems := posted ts (sems s)\<rparr>"
proof -
  from post_selectors_returns[OF assms] obtain ts where
    ts: "selectors (s\<lparr>channels := cs, mem := m\<rparr>) ch ts" "st' = st"
      "s' = s\<lparr>channels := cs, mem := m,
                  sems := posted ts (sems s)\<rparr>"
    by auto
  have "selectors (s\<lparr>channels := cs, mem := m\<rparr>) ch ts = selectors s ch ts"
    by (rule selectors_cong) simp_all
  with ts have "selectors s ch ts \<and> st' = st \<and>
           s' = s\<lparr>channels := cs, mem := m,
                  sems := posted ts (sems s)\<rparr>" by simp
  then show ?thesis ..
qed

lemma try_send_returns:
  assumes "channels s c = Some ch" "\<not> is_closed ch"
    and "channel_non_blocking_send s c v = Some (Inr (s', st))"
  shows "(st = CHANNEL_FULL \<and> s' = s \<and> capacity (buffer ch) \<le> length (contents (buffer ch)))
       \<or> (st = SUCCESS \<and> length (contents (buffer ch)) < capacity (buffer ch) \<and>
           (\<exists>ts. selectors s ch ts \<and>
              s' = s\<lparr>channels := (channels s)(c \<mapsto>
                        ch\<lparr>buffer := (buffer ch)\<lparr>contents := contents (buffer ch) @ [v]\<rparr>\<rparr>),
                     sems := posted ts (sems s)\<rparr>))"
proof (cases "capacity (buffer ch) \<le> length (contents (buffer ch))")
  case True
  with assms show ?thesis by (simp add: try_send_full)
next
  case False
  with assms have "post_selectors
        (s\<lparr>channels := (channels s)(c \<mapsto>
              ch\<lparr>buffer := (buffer ch)\<lparr>contents := contents (buffer ch) @ [v]\<rparr>\<rparr>),
           mem := mem s\<rparr>) ch SUCCESS = Some (Inr (s', st))"
    by (simp add: channel_non_blocking_send_def buffer_add_def)
  from post_selectors_returns_update[OF this] False show ?thesis by auto
qed

lemma try_receive_returns:
  assumes "channels s c = Some ch" "\<not> is_closed ch"
    and "channel_non_blocking_receive s c d = Some (Inr (s', st))"
  shows "(st = CHANNEL_EMPTY \<and> s' = s \<and> contents (buffer ch) = [])
       \<or> (st = SUCCESS \<and>
           (\<exists>x xs ts. contents (buffer ch) = x # xs \<and> selectors s ch ts \<and>
              s' = s\<lparr>channels := (channels s)(c \<mapsto> ch\<lparr>buffer := (buffer ch)\<lparr>contents := xs\<rparr>\<rparr>),
                     mem := (mem s)(d := x),
                     sems := posted ts (sems s)\<rparr>))"
proof (cases "contents (buffer ch)")
  case Nil
  with assms show ?thesis by (simp add: try_receive_empty)
next
  case (Cons x xs)
  with assms have "post_selectors
        (s\<lparr>channels := (channels s)(c \<mapsto> ch\<lparr>buffer := (buffer ch)\<lparr>contents := xs\<rparr>\<rparr>),
           mem := (mem s)(d := x)\<rparr>) ch SUCCESS = Some (Inr (s', st))"
    by (simp add: channel_non_blocking_receive_def buffer_remove_def)
  from post_selectors_returns_update[OF this] Cons show ?thesis by auto
qed

lemma send_returns:
  assumes "channels s c = Some ch" "\<not> is_closed ch"
    and "channel_send s c v = Some (Inr (s', st))"
  shows "st = SUCCESS \<and> length (contents (buffer ch)) < capacity (buffer ch) \<and>
           (\<exists>ts. selectors s ch ts \<and>
              s' = s\<lparr>channels := (channels s)(c \<mapsto>
                        ch\<lparr>buffer := (buffer ch)\<lparr>contents := contents (buffer ch) @ [v]\<rparr>\<rparr>),
                     sems := posted ts (sems s)\<rparr>)"
proof (cases "capacity (buffer ch) \<le> length (contents (buffer ch))")
  case True
  from channel_send_loop_blocked[OF assms(1,2) True, of v] assms show ?thesis
    by (simp add: channel_send_def)
next
  case False
  with assms have "post_selectors
        (s\<lparr>channels := (channels s)(c \<mapsto>
              ch\<lparr>buffer := (buffer ch)\<lparr>contents := contents (buffer ch) @ [v]\<rparr>\<rparr>),
           mem := mem s\<rparr>) ch SUCCESS = Some (Inr (s', st))"
    by (simp add: channel_send_def channel_send_loop.simps[of s] buffer_add_def)
  from post_selectors_returns_update[OF this] False show ?thesis by auto
qed

lemma receive_returns:
  assumes "channels s c = Some ch" "\<not> is_closed ch"
    and "channel_receive s c d = Some (Inr (s', st))"
  shows "st = SUCCESS \<and>
           (\<exists>x xs ts. contents (buffer ch) = x # xs \<and> selectors s ch ts \<and>
              s' = s\<lparr>channels := (channels s)(c \<mapsto> ch\<lparr>buffer := (buffer ch)\<lparr>contents := xs\<rparr>\<rparr>),
                     mem := (mem s)(d := x),
                     sems := posted ts (sems s)\<rparr>)"
proof (cases "contents (buffer ch)")
  case Nil
  from channel_receive_loop_blocked[OF assms(1,2) Nil, of d] assms show ?thesis
    by (simp add: channel_receive_def)
next
  case (Cons x xs)
  with assms have "post_selectors
        (s\<lparr>channels := (channels s)(c \<mapsto> ch\<lparr>buffer := (buffer ch)\<lparr>contents := xs\<rparr>\<rparr>),
           mem := (mem s)(d := x)\<rparr>) ch SUCCESS = Some (Inr (s', st))"
    by (simp add: channel_receive_def channel_receive_loop.simps[of s] buffer_remove_def)
  from post_selectors_returns_update[OF this] Cons show ?thesis by auto
qed

lemma close_returns:
  assumes "channels s c = Some ch" "\<not> is_closed ch"
    and "channel_close s c = Some (Inr (s', st))"
  shows "st = SUCCESS \<and>
           (\<exists>ts. selectors s ch ts \<and>
              s' = s\<lparr>channels := (channels s)(c \<mapsto> ch\<lparr>is_closed := True\<rparr>),
                     sems := posted ts (sems s)\<rparr>)"
proof -
  from assms have "post_selectors
        (s\<lparr>channels := (channels s)(c \<mapsto> ch\<lparr>is_closed := True\<rparr>), mem := mem s\<rparr>) ch SUCCESS
           = Some (Inr (s', st))"
    by (simp add: channel_close_def)
  from post_selectors_returns_update[OF this] show ?thesis by auto
qed

section \<open>Sequences of non-blocking sends and receives\<close>

lemma history_invariant:
  assumes "history c s vs xs s'" "channels s c = Some ch" "\<not> is_closed ch"
  shows "\<exists>ch'. channels s' c = Some ch' \<and> \<not> is_closed ch'
           \<and> capacity (buffer ch') = capacity (buffer ch)
           \<and> contents (buffer ch) @ vs = xs @ contents (buffer ch')
           \<and> (vs \<noteq> [] \<or> xs \<noteq> [] \<longrightarrow> (\<exists>ts. selectors s' ch' ts))"
  using assms
proof (induction rule: history.induct)
  case (history_start s)
  then show ?case by simp
next
  case (history_send s vs xs s' v s'')
  from history_send.IH[OF history_send.prems] obtain ch' where
    h: "channels s' c = Some ch'" "\<not> is_closed ch'"
    and b: "capacity (buffer ch') = capacity (buffer ch)"
           "contents (buffer ch) @ vs = xs @ contents (buffer ch')"
    by blast
  from try_send_returns[OF h history_send.hyps(2)] obtain ts where
    sel: "selectors s' ch' ts" and free: "length (contents (buffer ch')) < capacity (buffer ch')"
    by auto
  from try_send_step[OF h sel free, of v] history_send.hyps(2)
  obtain ch'' where "channels s'' c = Some ch''" "\<not> is_closed ch''" "selectors s'' ch'' ts"
    "capacity (buffer ch'') = capacity (buffer ch')"
    "contents (buffer ch'') = contents (buffer ch') @ [v]"
    by auto
  with b show ?case by auto
next
  case (history_receive s vs xs s' d s'')
  from history_receive.IH[OF history_receive.prems] obtain ch' where
    h: "channels s' c = Some ch'" "\<not> is_closed ch'"
    and b: "capacity (buffer ch') = capacity (buffer ch)"
           "contents (buffer ch) @ vs = xs @ contents (buffer ch')"
    by blast
  from try_receive_returns[OF h history_receive.hyps(2)] obtain x rest ts where
    ne: "contents (buffer ch') = x # rest" and sel: "selectors s' ch' ts"
    by auto
  from try_receive_step[OF h sel ne, of d] history_receive.hyps(2)
  obtain ch'' where "mem s'' d = x" "channels s'' c = Some ch''" "\<not> is_closed ch''"
    "selectors s'' ch'' ts" "capacity (buffer ch'') = capacity (buffer ch')"
    "contents (buffer ch'') = rest"
    by auto
  with b ne show ?case by auto
qed

text \<open>A full channel: the next send is refused, and a successful receive makes room
  for the next send.\<close>

lemma full_channel_step:
  assumes "channels s c = Some ch" and "\<not> is_closed ch"
    and full: "length (contents (buffer ch)) = capacity (buffer ch)"
  shows "channel_non_blocking_send s c v = Some (Inr (s, CHANNEL_FULL))
       \<and> (\<forall>s1. channel_non_blocking_receive s c d = Some (Inr (s1, SUCCESS)) \<longrightarrow>
              (\<exists>s2. channel_non_blocking_send s1 c w = Some (Inr (s2, SUCCESS))))
       \<and> (0 < capacity (buffer ch) \<and> selectors s ch ts \<longrightarrow>
              (\<exists>s1. channel_non_blocking_receive s c d = Some (Inr (s1, SUCCESS))))"
proof (intro conjI allI impI)
  show "channel_non_blocking_send s c v = Some (Inr (s, CHANNEL_FULL))"
    using full by (intro try_send_full[OF assms(1,2)]) simp
next
  fix s1 assume r: "channel_non_blocking_receive s c d = Some (Inr (s1, SUCCESS))"
  from try_receive_returns[OF assms(1,2) r] obtain x xs ts where
    ne: "contents (buffer ch) = x # xs" and sel: "selectors s ch ts" by auto
  from try_receive_step[OF assms(1,2) sel ne, of d] r
  obtain ch' where h: "channels s1 c = Some ch'" "\<not> is_closed ch'" "selectors s1 ch' ts"
    and b: "capacity (buffer ch') = capacity (buffer ch)" "contents (buffer ch') = xs"
    by auto
  have "length (contents (buffer ch')) < capacity (buffer ch')"
    using b full ne by simp
  from try_send_step[OF h this, of w]
  show "\<exists>s2. channel_non_blocking_send s1 c w = Some (Inr (s2, SUCCESS))"
    by (elim exE conjE) (rule exI)
next
  assume a: "0 < capacity (buffer ch) \<and> selectors s ch ts"
  with full obtain x xs where ne: "contents (buffer ch) = x # xs"
    by (cases "contents (buffer ch)") auto
  from a have sel: "selectors s ch ts" ..
  from try_receive_step[OF assms(1,2) sel ne, of d]
  show "\<exists>s1. channel_non_blocking_receive s c d = Some (Inr (s1, SUCCESS))"
    by (elim exE conjE) (rule exI)
qed

section \<open>The closed flag across the operations\<close>

text \<open>
  No operation turns a flag that is true into false.
  \<^item> \<open>channel_close\<close> on an open channel: whenever it returns, it returns \<open>SUCCESS\<close> and
    the flag of that channel is set, every other flag being as before; it does return
    when the channel's list of selectors is well formed.
  \<^item> \<open>channel_close\<close> on a closed channel returns \<open>CLOSED_ERROR\<close> and leaves the store
    unchanged.
  \<^item> \<open>channel_send\<close>, \<open>channel_receive\<close>, \<open>channel_non_blocking_send\<close>,
    \<open>channel_non_blocking_receive\<close> and \<open>channel_select\<close>, on any channels, leave the
    flag of every channel as it is.
  \<^item> \<open>channel_destroy\<close> changes nothing on an open channel and frees a closed one (its
    flag is gone with it); \<open>channel_create\<close> adds an open channel at the new address.
\<close>

lemma closed_flag_kept:
  "(channels s c = Some ch \<and> \<not> is_closed ch \<longrightarrow>
      (channel_close s c = Some (Inr (s', st)) \<longrightarrow>
         st = SUCCESS \<and> closed_flag s' = (closed_flag s)(c \<mapsto> True))
    \<and> (selectors s ch ts \<longrightarrow> (\<exists>t. channel_close s c = Some (Inr (t, SUCCESS)))))
 \<and> (channels s c = Some ch \<and> is_closed ch \<longrightarrow>
      channel_close s c = Some (Inr (s, CLOSED_ERROR)))
 \<and> (channel_send s c v = Some (Inr (s', st)) \<longrightarrow> closed_flag s' = closed_flag s)
 \<and> (channel_receive s c d = Some (Inr (s', st)) \<longrightarrow> closed_flag s' = closed_flag s)
 \<and> (channel_non_blocking_send s c v = Some (Inr (s', st)) \<longrightarrow>
      closed_flag s' = closed_flag s)
 \<and> (channel_non_blocking_receive s c d = Some (Inr (s', st)) \<longrightarrow>
      closed_flag s' = closed_flag s)
 \<and> (channel_select s cl idx = Some (Inr (s', st)) \<longrightarrow> closed_flag s' = closed_flag s)
 \<and> (channel_destroy s c = Some (Inr (s', st)) \<longrightarrow>
      (st = DESTROY_ERROR \<and> s' = s \<and> closed_flag s c = Some False)
    \<or> (st = SUCCESS \<and> closed_flag s c = Some True
         \<and> closed_flag s' = (closed_flag s)(c := None)))
 \<and> closed_flag (snd (channel_create s sz)) =
      (closed_flag s)(fst (channel_create s sz) \<mapsto> False)"
proof (intro conjI impI)
  assume a: "channels s c = Some ch \<and> \<not> is_closed ch"
  {
    assume "channel_close s c = Some (Inr (s', st))"
    from close_flags[OF this] a
    show "st = SUCCESS" "closed_flag s' = (closed_flag s)(c \<mapsto> True)"
      by (auto simp: closed_flag_def)
  }
  {
    assume "selectors s ch ts"
    with a close_success[of s c ch ts]
    show "\<exists>t. channel_close s c = Some (Inr (t, SUCCESS))" by simp
  }
next
  assume "channels s c = Some ch \<and> is_closed ch"
  then show "channel_close s c = Some (Inr (s, CLOSED_ERROR))"
    by (simp add: channel_close_def)
next
  assume "channel_send s c v = Some (Inr (s', st))"
  then show "closed_flag s' = closed_flag s" by (rule send_flags)
next
  assume "channel_receive s c d = Some (Inr (s', st))"
  then show "closed_flag s' = closed_flag s" by (rule receive_flags)
next
  assume "channel_non_blocking_send s c v = Some (Inr (s', st))"
  then show "closed_flag s' = closed_flag s" by (rule try_send_flags)
next
  assume "channel_non_blocking_receive s c d = Some (Inr (s', st))"
  then show "closed_flag s' = closed_flag s" by (rule try_receive_flags)
next
  assume "channel_select s cl idx = Some (Inr (s', st))"
  then show "closed_flag s' = closed_flag s" by (rule select_flags)
next
  assume "channel_destroy s c = Some (Inr (s', st))"
  then show "(st = DESTROY_ERROR \<and> s' = s \<and> closed_flag s c = Some False)
    \<or> (st = SUCCESS \<and> closed_flag s c = Some True
         \<and> closed_flag s' = (closed_flag s)(c := None))"
    by (rule destroy_flags)
next
  show "closed_flag (snd (channel_create s sz)) =
      (closed_flag s)(fst (channel_create s sz) \<mapsto> False)"
    by (rule create_flags)
qed

section \<open>What a returning success has posted\<close>

text \<open>When one of the five state-changing calls returns \<open>SUCCESS\<close> on an open channel,
  the channel's list was a well-formed list of initialised semaphores, and each of them
  has been posted once for each node that holds it.\<close>

lemma returning_success_posted:
  assumes "channels s c = Some ch" and "\<not> is_closed ch"
    and "channel_send s c v = Some (Inr (s', SUCCESS))
          \<or> channel_non_blocking_send s c v = Some (Inr (s', SUCCESS))
          \<or> channel_receive s c d = Some (Inr (s', SUCCESS))
          \<or> channel_non_blocking_receive s c d = Some (Inr (s', SUCCESS))
          \<or> channel_close s c = Some (Inr (s', SUCCESS))"
  shows "\<exists>ts. selectors s ch ts \<and> sems s' = posted ts (sems s)"
  using assms(3)
    send_returns[OF assms(1,2), of v s' SUCCESS] try_send_returns[OF assms(1,2), of v s' SUCCESS]
    receive_returns[OF assms(1,2), of d s' SUCCESS]
    try_receive_returns[OF assms(1,2), of d s' SUCCESS]
    close_returns[OF assms(1,2), of s' SUCCESS]
  by (elim disjE) auto

section \<open>The channel operations on a channel with a registered semaphore\<close>

text \<open>Registration of one entry on an open channel whose list is empty: the list becomes
  one node that is its own successor and holds the semaphore.\<close>

lemma select_register_single_open:
  assumes "channels s c = Some ch" "\<not> is_closed ch"
    "lists s (select ch) = Some l" "head l = NULL"
  shows "select_register s sem [\<lparr>channel = c, dir = d, sdata = x\<rparr>] =
         Inr (s\<lparr>brk := Suc (brk s),
                  nodes := (nodes s)(Suc (brk s) \<mapsto>
                      \<lparr>data = sem, next = Suc (brk s), prev = Suc (brk s)\<rparr>),
                  lists := (lists s)(select ch \<mapsto>
                      l\<lparr>head := Suc (brk s), count := count l + 1\<rparr>)\<rparr>, False)"
  using assms by (simp add: list_insert_empty)

text \<open>The tail of a successful send, receive or close on such a list: with the semaphore
  initialised the posting does not end, with the semaphore destroyed the first post is an
  access to an invalid object.\<close>

lemma post_selectors_cyclic:
  assumes "select ch \<noteq> NULL" "lists t (select ch) = Some l" "head l \<noteq> NULL"
    "nodes t (head l) = Some n" "next n = head l" "sems t (data n) \<noteq> None"
  shows "post_selectors t ch st = None"
proof -
  have "list_foreach_loop sem_post t (head l) = None"
    by (rule list_foreach_loop_self_sem_post[where n = n]) (use assms in simp_all)
  then show ?thesis using assms by (simp add: post_selectors_def list_foreach_def)
qed

lemma post_selectors_destroyed:
  assumes "select ch \<noteq> NULL" "lists t (select ch) = Some l" "head l \<noteq> NULL"
    "nodes t (head l) = Some n" "sems t (data n) = None"
  shows "post_selectors t ch st = Some (Inl InvalidPointer)"
  using assms
  by (simp add: post_selectors_def list_foreach_def list_foreach_loop.simps[of _ t]
      sem_post_def)




lemma close_cyclic_selectors:
  assumes "channels t c = Some ch" "\<not> is_closed ch"
    "select ch \<noteq> NULL" "lists t (select ch) = Some l" "head l \<noteq> NULL"
    "nodes t (head l) = Some n" "next n = head l" "sems t (data n) \<noteq> None"
  shows "channel_close t c = None"
proof -
  let ?t' = "t\<lparr>channels := (channels t)(c \<mapsto> ch\<lparr>is_closed := True\<rparr>)\<rparr>"
  have "post_selectors ?t' ch SUCCESS = None"
    by (rule post_selectors_cyclic[where l = l and n = n]) (use assms in simp_all)
  then show ?thesis using assms by (simp add: channel_close_def)
qed

lemma close_destroyed_selector:
  assumes "channels t c = Some ch" "\<not> is_closed ch"
    "select ch \<noteq> NULL" "lists t (select ch) = Some l" "head l \<noteq> NULL"
    "nodes t (head l) = Some n" "sems t (data n) = None"
  shows "channel_close t c = Some (Inl InvalidPointer)"
proof -
  let ?t' = "t\<lparr>channels := (channels t)(c \<mapsto> ch\<lparr>is_closed := True\<rparr>)\<rparr>"
  have "post_selectors ?t' ch SUCCESS = Some (Inl InvalidPointer)"
    by (rule post_selectors_destroyed[where l = l and n = n]) (use assms in simp_all)
  then show ?thesis using assms by (simp add: channel_close_def)
qed




text \<open>
  The store in which a \<open>channel_select\<close> waits.  A channel of capacity 1 is created from
  the initial store; \<open>channel_select\<close> with the one entry (channel, \<open>RECV\<close>) takes the
  address of its semaphore, initialises it to 0 and registers it; the sweep finds the
  channel empty; the call is then inside \<open>sem_wait\<close>, which no call of its own thread can
  end.  In this store the list of the channel is the one-node cycle.
\<close>

lemma select_waits_on_empty_channel:
  "\<exists>s t e ch l n.
     channel_create init 1 = (1, s) \<and> malloc s = (3, t)
   \<and> select_register (sem_init t 3 0) 3 [\<lparr>channel = 1, dir = RECV, sdata = 100\<rparr>]
        = Inr (e, False)
   \<and> select_sweep e 3 [\<lparr>channel = 1, dir = RECV, sdata = 100\<rparr>] 200 0
        [\<lparr>channel = 1, dir = RECV, sdata = 100\<rparr>] = Some (Inr (e, None))
   \<and> sem_wait e 3 = None
   \<and> channels e 1 = Some ch \<and> \<not> is_closed ch
   \<and> contents (buffer ch) = [] \<and> capacity (buffer ch) = 1
   \<and> select ch \<noteq> NULL \<and> lists e (select ch) = Some l \<and> head l \<noteq> NULL
   \<and> nodes e (head l) = Some n \<and> next n = head l \<and> sems e (data n) \<noteq> None"
proof -
  let ?ch = "\<lparr>buffer = \<lparr>capacity = 1, contents = []\<rparr>, is_closed = False, select = 2\<rparr>"
  let ?lz = "\<lparr>head = NULL, count = 0 :: 64 word\<rparr>"
  let ?s = "snd (channel_create init 1)"
  let ?t = "?s\<lparr>brk := 3\<rparr>"
  let ?u = "sem_init ?t 3 0"
  let ?n = "\<lparr>data = 3, next = 4, prev = 4\<rparr>"
  let ?l = "?lz\<lparr>head := 4, count := count ?lz + 1\<rparr>"
  let ?e = "?u\<lparr>brk := 4, nodes := (nodes ?u)(4 \<mapsto> ?n), lists := (lists ?u)(2 \<mapsto> ?l)\<rparr>"
  let ?x = "\<lparr>channel = 1, dir = RECV, sdata = 100\<rparr>"
  have c: "channel_create init 1 = (1, ?s)"
    by (simp add: channel_create_effect init_def)
  have m: "malloc ?s = (3, ?t)"
    by (simp add: malloc_def channel_create_effect init_def)
  have hu: "channels ?u 1 = Some ?ch" "\<not> is_closed ?ch"
    "lists ?u (select ?ch) = Some ?lz" "head ?lz = NULL"
    by (simp_all add: sem_init_def channel_create_effect init_def)
  have reg: "select_register ?u 3 [?x] = Inr (?e, False)"
    using select_register_single_open[OF hu, of 3 RECV 100] by (simp add: sem_init_def)
  have he: "channels ?e 1 = Some ?ch" "contents (buffer ?ch) = []"
    "capacity (buffer ?ch) = 1" "select ?ch \<noteq> NULL" "lists ?e (select ?ch) = Some ?l"
    "head ?l \<noteq> NULL" "nodes ?e (head ?l) = Some ?n" "next ?n = head ?l"
    "sems ?e (data ?n) \<noteq> None"
    by (simp_all add: sem_init_def channel_create_effect init_def)
  have "channel_non_blocking_receive ?e 1 100 = Some (Inr (?e, CHANNEL_EMPTY))"
    by (rule try_receive_empty[OF he(1) hu(2) he(2)])
  then have sweep: "select_sweep ?e 3 [?x] 200 0 [?x] = Some (Inr (?e, None))"
    by simp
  have wait: "sem_wait ?e 3 = None"
    by (rule sem_wait_blocked) (simp add: sem_init_def)
  show ?thesis
    apply (rule exI[of _ ?s], rule exI[of _ ?t], rule exI[of _ ?e], rule exI[of _ ?ch],
        rule exI[of _ ?l], rule exI[of _ ?n])
    using c m reg sweep wait he hu(2) by (simp only: simp_thms)
qed


section \<open>The claims\<close>

subsection \<open>Claim C1\<close>

text \<open>
  Claim C1 fails on the code at this input.  \<open>channel_select\<close> on the open channel
  \<open>c0\<close> and the closed channel \<open>c1\<close> inserts its semaphore into the list of \<open>c0\<close>,
  then sees \<open>c1\<close> closed and returns \<open>CLOSED_ERROR\<close> from the registration loop after
  \<open>sem_destroy\<close> only.  In the returned store the semaphore (address \<open>brk + 1\<close>) is
  destroyed, and the list of \<open>c0\<close> still has a node holding it, which \<open>list_find\<close>
  finds: the token has not been removed from the selectors of \<open>c0\<close>.
\<close>

theorem select_early_return_keeps_token_registered:
  "\<exists>c0 s1 c1 s2 s3 s4 ch0 l n.
     channel_create init 1 = (c0, s1) \<and> channel_create s1 1 = (c1, s2)
   \<and> channel_close s2 c1 = Some (Inr (s3, SUCCESS))
   \<and> channel_select s3 [\<lparr>channel = c0, dir = RECV, sdata = 100\<rparr>,
                         \<lparr>channel = c1, dir = RECV, sdata = 101\<rparr>] 200
        = Some (Inr (s4, CLOSED_ERROR))
   \<and> channels s4 c0 = Some ch0 \<and> lists s4 (select ch0) = Some l \<and> head l \<noteq> NULL
   \<and> nodes s4 (head l) = Some n \<and> data n = Suc (brk s3)
   \<and> sems s4 (Suc (brk s3)) = None
   \<and> list_find s4 (select ch0) (Suc (brk s3)) = Some (Inr (head l))"
proof -
  from two_channels_second_closed obtain s1 s2 s3 ch0 ch1 where
    c: "channel_create init 1 = (1, s1)" "channel_create s1 1 = (3, s2)"
       "channel_close s2 3 = Some (Inr (s3, SUCCESS))"
    and h: "channels s3 1 = Some ch0" "\<not> is_closed ch0" 
    and sel: "select ch0 = 2"
    and l: "lists s3 2 = Some \<lparr>head = NULL, count = 0\<rparr>"
    and h1: "channels s3 3 = Some ch1" "is_closed ch1" and b: "brk s3 = 4"
    by (elim exE conjE)
  let ?lz = "\<lparr>head = NULL, count = 0 :: 64 word\<rparr>"
  let ?l = "?lz\<lparr>head := 6, count := count ?lz + 1\<rparr>"
  let ?n = "\<lparr>data = 5, next = 6, prev = 6\<rparr>"
  let ?s4 = "s3\<lparr>brk := 6, nodes := (nodes s3)(6 \<mapsto> ?n),
                lists := (lists s3)(2 \<mapsto> ?l), sems := (sems s3)(5 := None)\<rparr>"
  have l': "lists s3 (select ch0) = Some ?lz" "head ?lz = NULL" using l sel by simp_all
  have run: "channel_select s3 [\<lparr>channel = 1, dir = RECV, sdata = 100\<rparr>,
                         \<lparr>channel = 3, dir = RECV, sdata = 101\<rparr>] 200
        = Some (Inr (?s4, CLOSED_ERROR))"
    using select_closed_second[OF h l' h1, of RECV 100 RECV 101 200] b sel
    by (simp add: eval_nat_numeral)
  have find: "list_find ?s4 (select ch0) (Suc (brk s3)) = Some (Inr (head ?l))"
    using sel b by (simp add: list_find_def list_find_loop.simps[of _ 6])
  have r: "channels ?s4 1 = Some ch0" "lists ?s4 (select ch0) = Some ?l" "head ?l \<noteq> NULL"
    "nodes ?s4 (head ?l) = Some ?n" "data ?n = Suc (brk s3)" "sems ?s4 (Suc (brk s3)) = None"
    using h sel b by simp_all
  show ?thesis
    by (intro exI[of _ 1] exI[of _ s1] exI[of _ 3] exI[of _ s2] exI[of _ s3] exI[of _ ?s4]
        exI[of _ ch0] exI[of _ ?l] exI[of _ ?n] conjI c run r find)
qed

subsection \<open>Claim C2\<close>

text \<open>
  Claim C2 fails on the code at this input.  The caller's variable at address 200 holds
  7 before the call; the closed channel is at index 1.  \<open>channel_select\<close> returns
  \<open>CLOSED_ERROR\<close> from the registration loop, and the variable still holds 7: the early
  return does not write \<open>*selected_index\<close>.
\<close>

theorem select_early_return_leaves_index_unset:
  "\<exists>c0 s1 c1 s2 s3 s4.
     channel_create init 1 = (c0, s1) \<and> channel_create s1 1 = (c1, s2)
   \<and> channel_close s2 c1 = Some (Inr (s3, SUCCESS))
   \<and> channel_select (s3\<lparr>mem := (mem s3)(200 := 7)\<rparr>)
         [\<lparr>channel = c0, dir = RECV, sdata = 100\<rparr>,
          \<lparr>channel = c1, dir = RECV, sdata = 101\<rparr>] 200
        = Some (Inr (s4, CLOSED_ERROR))
   \<and> mem s4 200 = 7"
proof -
  from two_channels_second_closed obtain s1 s2 s3 ch0 ch1 where
    c: "channel_create init 1 = (1, s1)" "channel_create s1 1 = (3, s2)"
       "channel_close s2 3 = Some (Inr (s3, SUCCESS))"
    and h: "channels s3 1 = Some ch0" "\<not> is_closed ch0" 
    and sel: "select ch0 = 2"
    and l: "lists s3 2 = Some \<lparr>head = NULL, count = 0\<rparr>"
    and h1: "channels s3 3 = Some ch1" "is_closed ch1"
    by (elim exE conjE)
  let ?t = "s3\<lparr>mem := (mem s3)(200 := 7)\<rparr>"
  let ?lz = "\<lparr>head = NULL, count = 0 :: 64 word\<rparr>"
  have h': "channels ?t 1 = Some ch0" "lists ?t (select ch0) = Some ?lz" "head ?lz = NULL"
    "channels ?t 3 = Some ch1"
    using h l sel h1 by simp_all
  note run = select_closed_second[OF h'(1) h(2) h'(2,3,4) h1(2), of RECV 100 RECV 101 200]
  have "mem (s3\<lparr>mem := (mem s3)(200 := 7), brk := b, nodes := ns, lists := ls, sems := ss\<rparr>) 200 = 7"
    for b ns ls ss by simp
  from run this show ?thesis
    by (intro exI[of _ 1] exI[of _ s1] exI[of _ 3] exI[of _ s2] exI[of _ s3] exI conjI c)
qed

subsection \<open>Claim C3\<close>

text \<open>
  Claim C3.  On a channel whose \<open>is_closed\<close> flag is set, \<open>channel_receive\<close> and
  \<open>channel_non_blocking_receive\<close> return \<open>CLOSED_ERROR\<close> at once and leave the whole store
  as it is: nothing is written through \<open>data\<close> and the buffer keeps its elements, whatever
  it holds.
\<close>

theorem closed_receive_fails:
  assumes "channels s c = Some ch" and "is_closed ch"
  shows "channel_receive s c d = Some (Inr (s, CLOSED_ERROR))
       \<and> channel_non_blocking_receive s c d = Some (Inr (s, CLOSED_ERROR))"
  using assms by (simp add: channel_receive_def channel_non_blocking_receive_def)

text \<open>The spec's scenario 3: create a channel of capacity 1, send 7, close, then receive.
  The buffer still holds 7 and both receives answer \<open>CLOSED_ERROR\<close>.\<close>

theorem closed_receive_fails_witness:
  "\<exists>c s1 s2 s3 ch.
     channel_create init 1 = (c, s1)
   \<and> channel_send s1 c 7 = Some (Inr (s2, SUCCESS))
   \<and> channel_close s2 c = Some (Inr (s3, SUCCESS))
   \<and> channels s3 c = Some ch \<and> is_closed ch \<and> contents (buffer ch) = [7]
   \<and> channel_receive s3 c 100 = Some (Inr (s3, CLOSED_ERROR))
   \<and> channel_non_blocking_receive s3 c 100 = Some (Inr (s3, CLOSED_ERROR))"
proof -
  let ?ch1 = "\<lparr>buffer = \<lparr>capacity = 1, contents = []\<rparr>, is_closed = False, select = 2\<rparr>"
  let ?ch2 = "\<lparr>buffer = \<lparr>capacity = 1, contents = [7]\<rparr>, is_closed = False, select = 2\<rparr>"
  let ?ch3 = "\<lparr>buffer = \<lparr>capacity = 1, contents = [7]\<rparr>, is_closed = True, select = 2\<rparr>"
  let ?s1 = "snd (channel_create init 1)"
  let ?s2 = "?s1\<lparr>channels := (channels ?s1)(1 \<mapsto> ?ch2)\<rparr>"
  let ?s3 = "?s2\<lparr>channels := (channels ?s2)(1 \<mapsto> ?ch3)\<rparr>"
  have c: "channel_create init 1 = (1, ?s1)"
    by (simp add: channel_create_effect init_def)
  have ch1: "channels ?s1 1 = Some ?ch1" "selectors ?s1 ?ch1 []"
    by (simp_all add: channel_create_effect init_def selectors_def)
  have send: "channel_send ?s1 1 7 = Some (Inr (?s2, SUCCESS))"
    using send_success[OF ch1(1) _ ch1(2), of 7] by (simp add: posted_Nil)
  have ch2: "channels ?s2 1 = Some ?ch2" "selectors ?s2 ?ch2 []"
    by (simp_all add: channel_create_effect init_def selectors_def)
  have close: "channel_close ?s2 1 = Some (Inr (?s3, SUCCESS))"
    using close_success[OF ch2(1) _ ch2(2)] by (simp add: posted_Nil)
  have ch3: "channels ?s3 1 = Some ?ch3" by simp
  have "is_closed ?ch3" "contents (buffer ?ch3) = [7]" by simp_all
  with c send close ch3 closed_receive_fails[OF ch3, of 100] show ?thesis
    by blast
qed

subsection \<open>Claim C4\<close>

text \<open>
  Claim C4.  On every open channel the buffer behaves as a queue.
  \<^item> Whenever \<open>channel_non_blocking_send\<close> returns, it either returns \<open>SUCCESS\<close>, there
    was room and the value has been appended at the back, or it returns \<open>CHANNEL_FULL\<close>,
    the buffer held \<open>capacity\<close> elements and the store is unchanged.
  \<^item> Whenever \<open>channel_non_blocking_receive\<close> returns, it either returns \<open>SUCCESS\<close>,
    the front element has been stored through \<open>data\<close> and removed, or it returns
    \<open>CHANNEL_EMPTY\<close>, the buffer was empty and the store is unchanged.
  \<^item> On a channel whose list of selectors is well formed both calls do return, and the
    channel stays open with the same capacity and selectors, so the statement applies
    again to the resulting store.
  \<^item> First in, first out: after any sequence of successful non-blocking sends of the
    values \<open>vs\<close> and receives delivering the values \<open>rs\<close>, the values delivered followed
    by the values still in the buffer are the values the buffer held at the start followed
    by \<open>vs\<close>.  On a channel that starts empty, \<open>rs\<close> is a prefix of \<open>vs\<close>.
\<close>

theorem channel_fifo:
  assumes "channels s c = Some ch" and "\<not> is_closed ch"
  shows "(channel_non_blocking_send s c v = Some (Inr (s', st)) \<longrightarrow>
            (st = SUCCESS \<and> length (contents (buffer ch)) < capacity (buffer ch)
             \<and> (\<exists>ch'. channels s' c = Some ch' \<and> \<not> is_closed ch'
                   \<and> capacity (buffer ch') = capacity (buffer ch)
                   \<and> contents (buffer ch') = contents (buffer ch) @ [v]))
          \<or> (st = CHANNEL_FULL \<and> s' = s
             \<and> capacity (buffer ch) \<le> length (contents (buffer ch))))
       \<and> (channel_non_blocking_receive s c d = Some (Inr (s', st)) \<longrightarrow>
            (st = SUCCESS
             \<and> (\<exists>x xs ch'. contents (buffer ch) = x # xs \<and> mem s' d = x
                   \<and> channels s' c = Some ch' \<and> \<not> is_closed ch'
                   \<and> capacity (buffer ch') = capacity (buffer ch)
                   \<and> contents (buffer ch') = xs))
          \<or> (st = CHANNEL_EMPTY \<and> s' = s \<and> contents (buffer ch) = []))
       \<and> (selectors s ch ts \<longrightarrow>
            (length (contents (buffer ch)) < capacity (buffer ch) \<longrightarrow>
               (\<exists>t ch'. channel_non_blocking_send s c v = Some (Inr (t, SUCCESS))
                  \<and> channels t c = Some ch' \<and> \<not> is_closed ch' \<and> selectors t ch' ts
                  \<and> capacity (buffer ch') = capacity (buffer ch)
                  \<and> contents (buffer ch') = contents (buffer ch) @ [v]))
          \<and> (capacity (buffer ch) \<le> length (contents (buffer ch)) \<longrightarrow>
               channel_non_blocking_send s c v = Some (Inr (s, CHANNEL_FULL)))
          \<and> (\<forall>x xs. contents (buffer ch) = x # xs \<longrightarrow>
               (\<exists>t ch'. channel_non_blocking_receive s c d = Some (Inr (t, SUCCESS))
                  \<and> mem t d = x
                  \<and> channels t c = Some ch' \<and> \<not> is_closed ch' \<and> selectors t ch' ts
                  \<and> capacity (buffer ch') = capacity (buffer ch)
                  \<and> contents (buffer ch') = xs))
          \<and> (contents (buffer ch) = [] \<longrightarrow>
               channel_non_blocking_receive s c d = Some (Inr (s, CHANNEL_EMPTY))))
       \<and> (history c s vs rs u \<longrightarrow>
            (\<exists>ch'. channels u c = Some ch' \<and> \<not> is_closed ch'
               \<and> capacity (buffer ch') = capacity (buffer ch)
               \<and> contents (buffer ch) @ vs = rs @ contents (buffer ch')))"
proof (intro conjI impI allI)
  assume "channel_non_blocking_send s c v = Some (Inr (s', st))"
  from try_send_returns[OF assms this]
  show "(st = SUCCESS \<and> length (contents (buffer ch)) < capacity (buffer ch)
             \<and> (\<exists>ch'. channels s' c = Some ch' \<and> \<not> is_closed ch'
                   \<and> capacity (buffer ch') = capacity (buffer ch)
                   \<and> contents (buffer ch') = contents (buffer ch) @ [v]))
          \<or> (st = CHANNEL_FULL \<and> s' = s
             \<and> capacity (buffer ch) \<le> length (contents (buffer ch)))"
    using assms(2) by auto
next
  assume "channel_non_blocking_receive s c d = Some (Inr (s', st))"
  from try_receive_returns[OF assms this]
  show "(st = SUCCESS
             \<and> (\<exists>x xs ch'. contents (buffer ch) = x # xs \<and> mem s' d = x
                   \<and> channels s' c = Some ch' \<and> \<not> is_closed ch'
                   \<and> capacity (buffer ch') = capacity (buffer ch)
                   \<and> contents (buffer ch') = xs))
          \<or> (st = CHANNEL_EMPTY \<and> s' = s \<and> contents (buffer ch) = [])"
    using assms(2) by auto
next
  assume "selectors s ch ts" "length (contents (buffer ch)) < capacity (buffer ch)"
  then show "\<exists>t ch'. channel_non_blocking_send s c v = Some (Inr (t, SUCCESS))
                  \<and> channels t c = Some ch' \<and> \<not> is_closed ch' \<and> selectors t ch' ts
                  \<and> capacity (buffer ch') = capacity (buffer ch)
                  \<and> contents (buffer ch') = contents (buffer ch) @ [v]"
    by (intro try_send_step[OF assms])
next
  assume "capacity (buffer ch) \<le> length (contents (buffer ch))"
  then show "channel_non_blocking_send s c v = Some (Inr (s, CHANNEL_FULL))"
    by (rule try_send_full[OF assms])
next
  fix x xs assume "selectors s ch ts" "contents (buffer ch) = x # xs"
  then show "\<exists>t ch'. channel_non_blocking_receive s c d = Some (Inr (t, SUCCESS))
                  \<and> mem t d = x
                  \<and> channels t c = Some ch' \<and> \<not> is_closed ch' \<and> selectors t ch' ts
                  \<and> capacity (buffer ch') = capacity (buffer ch)
                  \<and> contents (buffer ch') = xs"
    by (intro try_receive_step[OF assms])
next
  assume "contents (buffer ch) = []"
  then show "channel_non_blocking_receive s c d = Some (Inr (s, CHANNEL_EMPTY))"
    by (rule try_receive_empty[OF assms])
next
  assume "history c s vs rs u"
  from history_invariant[OF this assms]
  show "\<exists>ch'. channels u c = Some ch' \<and> \<not> is_closed ch'
               \<and> capacity (buffer ch') = capacity (buffer ch)
               \<and> contents (buffer ch) @ vs = rs @ contents (buffer ch')"
    by blast
qed

text \<open>The spec's scenario 1 on a channel of capacity 2: sends of 1 and 2 succeed, a
  third send answers \<open>CHANNEL_FULL\<close>, the receives deliver 1, then 2, then
  \<open>CHANNEL_EMPTY\<close>.\<close>

theorem channel_fifo_witness:
  "\<exists>c s0 s1 s2 s3 s4.
     channel_create init 2 = (c, s0)
   \<and> channel_non_blocking_send s0 c 1 = Some (Inr (s1, SUCCESS))
   \<and> channel_non_blocking_send s1 c 2 = Some (Inr (s2, SUCCESS))
   \<and> channel_non_blocking_send s2 c 3 = Some (Inr (s2, CHANNEL_FULL))
   \<and> channel_non_blocking_receive s2 c 100 = Some (Inr (s3, SUCCESS)) \<and> mem s3 100 = 1
   \<and> channel_non_blocking_receive s3 c 100 = Some (Inr (s4, SUCCESS)) \<and> mem s4 100 = 2
   \<and> channel_non_blocking_receive s4 c 100 = Some (Inr (s4, CHANNEL_EMPTY))
   \<and> history c s0 [1, 2] [1, 2] s4"
proof -
  let ?sa = "snd (channel_create init 2)"
  let ?cha = "\<lparr>buffer = \<lparr>capacity = 2, contents = []\<rparr>, is_closed = False, select = 2\<rparr>"
  have c: "channel_create init 2 = (1, ?sa)"
    by (simp add: channel_create_effect init_def)
  have h0: "channels ?sa 1 = Some ?cha" "\<not> is_closed ?cha" "selectors ?sa ?cha []"
    by (simp_all add: channel_create_effect init_def selectors_def)
  have "length (contents (buffer ?cha)) < capacity (buffer ?cha)" by simp
  from channel_fifo[OF h0(1,2), where v = 1 and d = 100 and ts = "[]",
      THEN conjunct2, THEN conjunct2, THEN conjunct1, THEN mp, OF h0(3), THEN conjunct1, THEN mp, OF this]
  obtain s1 ch1 where s1: "channel_non_blocking_send ?sa 1 1 = Some (Inr (s1, SUCCESS))"
    and h1: "channels s1 1 = Some ch1" "\<not> is_closed ch1" "selectors s1 ch1 []"
    and b1: "capacity (buffer ch1) = capacity (buffer ?cha)"
            "contents (buffer ch1) = contents (buffer ?cha) @ [1]"
    by (elim exE conjE)
  have "length (contents (buffer ch1)) < capacity (buffer ch1)" using b1 by simp
  from channel_fifo[OF h1(1,2), where v = 2 and d = 100 and ts = "[]",
      THEN conjunct2, THEN conjunct2, THEN conjunct1, THEN mp, OF h1(3), THEN conjunct1, THEN mp, OF this]
  obtain s2 ch2 where s2: "channel_non_blocking_send s1 1 2 = Some (Inr (s2, SUCCESS))"
    and h2: "channels s2 1 = Some ch2" "\<not> is_closed ch2" "selectors s2 ch2 []"
    and b2: "capacity (buffer ch2) = capacity (buffer ch1)"
            "contents (buffer ch2) = contents (buffer ch1) @ [2]"
    by (elim exE conjE)
  have "capacity (buffer ch2) \<le> length (contents (buffer ch2))" using b1 b2 by simp
  from channel_fifo[OF h2(1,2), where v = 3 and d = 100 and ts = "[]",
      THEN conjunct2, THEN conjunct2, THEN conjunct1, THEN mp, OF h2(3), THEN conjunct2, THEN conjunct1, THEN mp, OF this]
  have full: "channel_non_blocking_send s2 1 3 = Some (Inr (s2, CHANNEL_FULL))" .
  have "contents (buffer ch2) = 1 # [2]" using b1 b2 by simp
  from channel_fifo[OF h2(1,2), where v = 3 and d = 100 and ts = "[]",
      THEN conjunct2, THEN conjunct2, THEN conjunct1, THEN mp, OF h2(3), THEN conjunct2, THEN conjunct2, THEN conjunct1,
      THEN spec, THEN spec, THEN mp, OF this]
  obtain s3 ch3 where s3: "channel_non_blocking_receive s2 1 100 = Some (Inr (s3, SUCCESS))"
    and m3: "mem s3 100 = 1"
    and h3: "channels s3 1 = Some ch3" "\<not> is_closed ch3" "selectors s3 ch3 []"
    and b3: "contents (buffer ch3) = [2]"
    by (elim exE conjE)
  from channel_fifo[OF h3(1,2), where v = 3 and d = 100 and ts = "[]",
      THEN conjunct2, THEN conjunct2, THEN conjunct1, THEN mp, OF h3(3), THEN conjunct2, THEN conjunct2, THEN conjunct1,
      THEN spec, THEN spec, THEN mp, OF b3]
  obtain s4 ch4 where s4: "channel_non_blocking_receive s3 1 100 = Some (Inr (s4, SUCCESS))"
    and m4: "mem s4 100 = 2"
    and h4: "channels s4 1 = Some ch4" "\<not> is_closed ch4" "selectors s4 ch4 []"
    and b4: "contents (buffer ch4) = []"
    by (elim exE conjE)
  from channel_fifo[OF h4(1,2), where v = 3 and d = 100 and ts = "[]",
      THEN conjunct2, THEN conjunct2, THEN conjunct1, THEN mp, OF h4(3), THEN conjunct2, THEN conjunct2, THEN conjunct2, THEN mp, OF b4]
  have empty: "channel_non_blocking_receive s4 1 100 = Some (Inr (s4, CHANNEL_EMPTY))" .
  have "history 1 ?sa [1, 2] [mem s3 100, mem s4 100] s4"
    using history_receive[OF history_receive[OF history_send[OF history_send[OF
      history_start s1] s2] s3] s4]
    by simp
  then have hist: "history 1 ?sa [1, 2] [1, 2] s4" using m3 m4 by simp
  show ?thesis
    apply (rule exI[of _ 1], rule exI[of _ ?sa], rule exI[of _ s1], rule exI[of _ s2],
        rule exI[of _ s3], rule exI[of _ s4])
    using c s1 s2 full s3 m3 s4 m4 empty hist by (simp only: simp_thms)
qed

subsection \<open>Claim C5\<close>

text \<open>
  Claim C5.  Take an open channel of capacity \<open>K\<close> with an empty buffer, and a store
  reached from there by \<open>K\<close> successful calls of \<open>channel_non_blocking_send\<close> and no
  receive.  There the next \<open>channel_non_blocking_send\<close> returns \<open>CHANNEL_FULL\<close>; after
  one successful \<open>channel_non_blocking_receive\<close> the next \<open>channel_non_blocking_send\<close>
  returns \<open>SUCCESS\<close>; and for \<open>K > 0\<close> that receive does succeed.
\<close>

theorem full_channel_send_receive_send:
  assumes "channels s c = Some ch" and "\<not> is_closed ch" and "contents (buffer ch) = []"
    and "history c s vs [] s'" and "length vs = capacity (buffer ch)"
  shows "channel_non_blocking_send s' c v = Some (Inr (s', CHANNEL_FULL))
       \<and> (\<forall>s1. channel_non_blocking_receive s' c d = Some (Inr (s1, SUCCESS)) \<longrightarrow>
              (\<exists>s2. channel_non_blocking_send s1 c w = Some (Inr (s2, SUCCESS))))
       \<and> (0 < capacity (buffer ch) \<longrightarrow>
              (\<exists>s1. channel_non_blocking_receive s' c d = Some (Inr (s1, SUCCESS))))"
proof -
  from history_invariant[OF assms(4) assms(1,2)] assms(3) obtain ch' where
    h: "channels s' c = Some ch'" "\<not> is_closed ch'"
    and b: "capacity (buffer ch') = capacity (buffer ch)" "contents (buffer ch') = vs"
    and sel: "vs \<noteq> [] \<longrightarrow> (\<exists>ts. selectors s' ch' ts)"
    by auto
  have full: "length (contents (buffer ch')) = capacity (buffer ch')"
    using b assms(5) by simp
  note step = full_channel_step[OF h full]
  show ?thesis
  proof (intro conjI impI)
    show "channel_non_blocking_send s' c v = Some (Inr (s', CHANNEL_FULL))"
      by (rule step[THEN conjunct1])
    show "\<forall>s1. channel_non_blocking_receive s' c d = Some (Inr (s1, SUCCESS)) \<longrightarrow>
              (\<exists>s2. channel_non_blocking_send s1 c w = Some (Inr (s2, SUCCESS)))"
      by (rule step[THEN conjunct2, THEN conjunct1])
  next
    assume pos: "0 < capacity (buffer ch)"
    with assms(5) sel obtain ts where ts: "selectors s' ch' ts" by auto
    from pos b ts have "0 < capacity (buffer ch') \<and> selectors s' ch' ts" by simp
    from step[THEN conjunct2, THEN conjunct2, THEN mp, OF this]
    show "\<exists>s1. channel_non_blocking_receive s' c d = Some (Inr (s1, SUCCESS))" .
  qed
qed

text \<open>Capacity 2, from the initial store: two sends fill the channel, the third is
  refused, one receive makes room for the next send.\<close>

theorem full_channel_send_receive_send_witness:
  "\<exists>c s0 s1 s2 s3 s4.
     channel_create init 2 = (c, s0)
   \<and> channel_non_blocking_send s0 c 1 = Some (Inr (s1, SUCCESS))
   \<and> channel_non_blocking_send s1 c 2 = Some (Inr (s2, SUCCESS))
   \<and> channel_non_blocking_send s2 c 3 = Some (Inr (s2, CHANNEL_FULL))
   \<and> channel_non_blocking_receive s2 c 100 = Some (Inr (s3, SUCCESS))
   \<and> channel_non_blocking_send s3 c 3 = Some (Inr (s4, SUCCESS))"
proof -
  let ?sa = "snd (channel_create init 2)"
  let ?cha = "\<lparr>buffer = \<lparr>capacity = 2, contents = []\<rparr>, is_closed = False, select = 2\<rparr>"
  have c: "channel_create init 2 = (1, ?sa)"
    by (simp add: channel_create_effect init_def)
  have h0: "channels ?sa 1 = Some ?cha" "\<not> is_closed ?cha" "selectors ?sa ?cha []"
    by (simp_all add: channel_create_effect init_def selectors_def)
  have "length (contents (buffer ?cha)) < capacity (buffer ?cha)" by simp
  from try_send_step[OF h0 this, of 1]
  obtain s1 ch1 where s1: "channel_non_blocking_send ?sa 1 1 = Some (Inr (s1, SUCCESS))"
    and h1: "channels s1 1 = Some ch1" "\<not> is_closed ch1" "selectors s1 ch1 []"
    and b1: "capacity (buffer ch1) = capacity (buffer ?cha)"
            "contents (buffer ch1) = contents (buffer ?cha) @ [1]"
    by (elim exE conjE)
  have "length (contents (buffer ch1)) < capacity (buffer ch1)" using b1 by simp
  from try_send_step[OF h1 this, of 2]
  obtain s2 ch2 where s2: "channel_non_blocking_send s1 1 2 = Some (Inr (s2, SUCCESS))"
    and h2: "channels s2 1 = Some ch2" "\<not> is_closed ch2" "selectors s2 ch2 []"
    and b2: "capacity (buffer ch2) = capacity (buffer ch1)"
            "contents (buffer ch2) = contents (buffer ch1) @ [2]"
    by (elim exE conjE)
  have hist: "history 1 ?sa [1, 2] [] s2"
    using history_send[OF history_send[OF history_start s1] s2] by simp
  have e: "contents (buffer ?cha) = []" "length [1, 2 :: ptr] = capacity (buffer ?cha)"
    by simp_all
  have pos: "0 < capacity (buffer ?cha)" by simp
  note T = full_channel_send_receive_send[OF h0(1,2) e(1) hist e(2),
      where v = 3 and d = 100 and w = 3]
  from T[THEN conjunct2, THEN conjunct2, THEN mp, OF pos]
  obtain s3 where s3: "channel_non_blocking_receive s2 1 100 = Some (Inr (s3, SUCCESS))" ..
  from T[THEN conjunct2, THEN conjunct1, THEN spec, THEN mp, OF s3]
  obtain s4 where s4: "channel_non_blocking_send s3 1 3 = Some (Inr (s4, SUCCESS))" ..
  show ?thesis
    apply (rule exI[of _ 1], rule exI[of _ ?sa], rule exI[of _ s1], rule exI[of _ s2],
        rule exI[of _ s3], rule exI[of _ s4])
    using c s1 s2 T[THEN conjunct1] s3 s4 by (simp only: simp_thms)
qed

subsection \<open>Claim C6\<close>

text \<open>
  Claim C6 fails on the code at these inputs: \<open>channel_close\<close> on an open channel does not
  return \<open>SUCCESS\<close> once a \<open>channel_select\<close> has registered on the channel.
  \<^item> One thread.  Channels \<open>c0\<close> and \<open>c1\<close> are created, \<open>c1\<close> is closed, and
    \<open>channel_select\<close> on \<open>c0\<close> and \<open>c1\<close> returns \<open>CLOSED_ERROR\<close> from its
    registration loop, leaving its destroyed semaphore in the list of \<open>c0\<close>.  \<open>c0\<close> is
    open.  \<open>channel_close\<close> on \<open>c0\<close> sets the flag and then posts to the destroyed
    semaphore: an access to an invalid object, not a return of \<open>SUCCESS\<close>.
  \<^item> A \<open>channel_select\<close> that waits.  On the channel \<open>c\<close>, open and empty, a
    \<open>channel_select\<close> has registered its semaphore, found nothing ready, and waits in
    \<open>sem_wait\<close>.  \<open>channel_close\<close> on \<open>c\<close> sets the flag and then posts along the
    one-node cycle that \<open>list_insert\<close> built (lemma \<open>list_insert_empty\<close>) without end: it
    does not return.
  The other parts of the claim hold: lemma \<open>closed_flag_kept\<close>.
\<close>

theorem close_open_channel_does_not_return_success:
  "(\<exists>c0 s1 c1 s2 s3 s4.
      channel_create init 1 = (c0, s1) \<and> channel_create s1 1 = (c1, s2)
    \<and> channel_close s2 c1 = Some (Inr (s3, SUCCESS))
    \<and> channel_select s3 [\<lparr>channel = c0, dir = RECV, sdata = 100\<rparr>,
                          \<lparr>channel = c1, dir = RECV, sdata = 101\<rparr>] 200
         = Some (Inr (s4, CLOSED_ERROR))
    \<and> closed_flag s4 c0 = Some False
    \<and> channel_close s4 c0 = Some (Inl InvalidPointer))
 \<and> (\<exists>c s tok t e.
      channel_create init 1 = (c, s) \<and> malloc s = (tok, t)
    \<and> select_register (sem_init t tok 0) tok [\<lparr>channel = c, dir = RECV, sdata = 100\<rparr>]
         = Inr (e, False)
    \<and> select_sweep e tok [\<lparr>channel = c, dir = RECV, sdata = 100\<rparr>] 200 0
         [\<lparr>channel = c, dir = RECV, sdata = 100\<rparr>] = Some (Inr (e, None))
    \<and> sem_wait e tok = None
    \<and> closed_flag e c = Some False
    \<and> channel_close e c = None)"
proof
  from two_channels_second_closed obtain s1 s2 s3 ch0 ch1 where
    c: "channel_create init 1 = (1, s1)" "channel_create s1 1 = (3, s2)"
       "channel_close s2 3 = Some (Inr (s3, SUCCESS))"
    and h: "channels s3 1 = Some ch0" "\<not> is_closed ch0"
    and sel: "select ch0 = 2"
    and l: "lists s3 2 = Some \<lparr>head = NULL, count = 0\<rparr>"
    and h1: "channels s3 3 = Some ch1" "is_closed ch1" and b: "brk s3 = 4"
    by (elim exE conjE)
  let ?lz = "\<lparr>head = NULL, count = 0 :: 64 word\<rparr>"
  let ?l = "?lz\<lparr>head := 6, count := count ?lz + 1\<rparr>"
  let ?n = "\<lparr>data = 5, next = 6, prev = 6\<rparr>"
  let ?s4 = "s3\<lparr>brk := 6, nodes := (nodes s3)(6 \<mapsto> ?n),
                lists := (lists s3)(2 \<mapsto> ?l), sems := (sems s3)(5 := None)\<rparr>"
  have l': "lists s3 (select ch0) = Some ?lz" "head ?lz = NULL" using l sel by simp_all
  have run: "channel_select s3 [\<lparr>channel = 1, dir = RECV, sdata = 100\<rparr>,
                         \<lparr>channel = 3, dir = RECV, sdata = 101\<rparr>] 200
        = Some (Inr (?s4, CLOSED_ERROR))"
    using select_closed_second[OF h l' h1, of RECV 100 RECV 101 200] b sel
    by (simp add: eval_nat_numeral)
  have r: "channels ?s4 1 = Some ch0" "select ch0 \<noteq> NULL" "lists ?s4 (select ch0) = Some ?l"
    "head ?l \<noteq> NULL" "nodes ?s4 (head ?l) = Some ?n" "sems ?s4 (data ?n) = None"
    using h sel by simp_all
  have flag: "closed_flag ?s4 1 = Some False" using h by (simp add: closed_flag_def)
  note close = close_destroyed_selector[OF r(1) h(2) r(2-6)]
  show "\<exists>c0 s1 c1 s2 s3 s4.
      channel_create init 1 = (c0, s1) \<and> channel_create s1 1 = (c1, s2)
    \<and> channel_close s2 c1 = Some (Inr (s3, SUCCESS))
    \<and> channel_select s3 [\<lparr>channel = c0, dir = RECV, sdata = 100\<rparr>,
                          \<lparr>channel = c1, dir = RECV, sdata = 101\<rparr>] 200
         = Some (Inr (s4, CLOSED_ERROR))
    \<and> closed_flag s4 c0 = Some False
    \<and> channel_close s4 c0 = Some (Inl InvalidPointer)"
    apply (rule exI[of _ 1], rule exI[of _ s1], rule exI[of _ 3], rule exI[of _ s2],
        rule exI[of _ s3], rule exI[of _ ?s4])
    using c run flag close by (simp only: simp_thms)
next
  from select_waits_on_empty_channel obtain s t e ch l n where
    c: "channel_create init 1 = (1, s)" "malloc s = (3, t)"
       "select_register (sem_init t 3 0) 3 [\<lparr>channel = 1, dir = RECV, sdata = 100\<rparr>]
          = Inr (e, False)"
       "select_sweep e 3 [\<lparr>channel = 1, dir = RECV, sdata = 100\<rparr>] 200 0
          [\<lparr>channel = 1, dir = RECV, sdata = 100\<rparr>] = Some (Inr (e, None))"
       "sem_wait e 3 = None"
    and h: "channels e 1 = Some ch" "\<not> is_closed ch"
    and b: "contents (buffer ch) = []" "capacity (buffer ch) = 1"
    and cyc: "select ch \<noteq> NULL" "lists e (select ch) = Some l" "head l \<noteq> NULL"
       "nodes e (head l) = Some n" "next n = head l" "sems e (data n) \<noteq> None"
    by (elim exE conjE)
  have flag: "closed_flag e 1 = Some False" using h by (simp add: closed_flag_def)
  note close = close_cyclic_selectors[OF h cyc]
  show "\<exists>c s tok t e.
      channel_create init 1 = (c, s) \<and> malloc s = (tok, t)
    \<and> select_register (sem_init t tok 0) tok [\<lparr>channel = c, dir = RECV, sdata = 100\<rparr>]
         = Inr (e, False)
    \<and> select_sweep e tok [\<lparr>channel = c, dir = RECV, sdata = 100\<rparr>] 200 0
         [\<lparr>channel = c, dir = RECV, sdata = 100\<rparr>] = Some (Inr (e, None))
    \<and> sem_wait e tok = None
    \<and> closed_flag e c = Some False
    \<and> channel_close e c = None"
    apply (rule exI[of _ 1], rule exI[of _ s], rule exI[of _ 3], rule exI[of _ t],
        rule exI[of _ e])
    using c flag close by (simp only: simp_thms)
qed

subsection \<open>Claim C7\<close>


subsection \<open>Claim C8\<close>

text \<open>
  Claim C8 fails on the code at this input, the spec's scenario 4.  Channel \<open>c1\<close> of
  capacity 1 holds the value 9 and channel \<open>c2\<close> of capacity 1 is empty, so both entries
  are ready.  \<open>channel_select\<close> does not return: registration makes the list of \<open>c1\<close> a
  one-node cycle (lemma \<open>list_insert_empty\<close>), and the receive on \<open>c1\<close> in the first sweep, after taking the
  value, posts along that list without end.
\<close>

theorem select_ready_receive_never_returns:
  "\<exists>c1 s1 s2 c2 s3 ch1 ch2.
     channel_create init 1 = (c1, s1)
   \<and> channel_non_blocking_send s1 c1 9 = Some (Inr (s2, SUCCESS))
   \<and> channel_create s2 1 = (c2, s3)
   \<and> channels s3 c1 = Some ch1 \<and> \<not> is_closed ch1 \<and> contents (buffer ch1) = [9]
   \<and> channels s3 c2 = Some ch2 \<and> \<not> is_closed ch2 \<and> contents (buffer ch2) = []
   \<and> capacity (buffer ch2) = 1
   \<and> channel_select s3 [\<lparr>channel = c1, dir = RECV, sdata = 100\<rparr>,
                         \<lparr>channel = c2, dir = SEND, sdata = 5\<rparr>] 200 = None"
proof -
  let ?cha = "\<lparr>buffer = \<lparr>capacity = 1, contents = []\<rparr>, is_closed = False, select = 2\<rparr>"
  let ?chb = "\<lparr>buffer = \<lparr>capacity = 1, contents = [9]\<rparr>, is_closed = False, select = 2\<rparr>"
  let ?chc = "\<lparr>buffer = \<lparr>capacity = 1, contents = []\<rparr>, is_closed = False, select = 4\<rparr>"
  let ?lz = "\<lparr>head = NULL, count = 0 :: 64 word\<rparr>"
  let ?s1 = "snd (channel_create init 1)"
  let ?s2 = "?s1\<lparr>channels := (channels ?s1)(1 \<mapsto> ?chb)\<rparr>"
  let ?s3 = "snd (channel_create ?s2 1)"
  have c1: "channel_create init 1 = (1, ?s1)"
    by (simp add: channel_create_effect init_def)
  have h1: "channels ?s1 1 = Some ?cha" "\<not> is_closed ?cha" "selectors ?s1 ?cha []"
    "length (contents (buffer ?cha)) < capacity (buffer ?cha)"
    by (simp_all add: channel_create_effect init_def selectors_def)
  have snd: "channel_non_blocking_send ?s1 1 9 = Some (Inr (?s2, SUCCESS))"
    using try_send_success[OF h1, of 9] by (simp add: posted_Nil)
  have c2: "channel_create ?s2 1 = (3, ?s3)"
    by (simp add: channel_create_effect init_def)
  have h3: "channels ?s3 1 = Some ?chb" "\<not> is_closed ?chb"
    "lists ?s3 (select ?chb) = Some ?lz" "head ?lz = NULL"
    "channels ?s3 3 = Some ?chc" "\<not> is_closed ?chc"
    "lists ?s3 (select ?chc) = Some ?lz" "head ?lz = NULL" "select ?chc \<noteq> select ?chb"
    by (simp_all add: channel_create_effect init_def)
  have b: "contents (buffer ?chb) = 9 # []" "select ?chb \<noteq> NULL"
    "contents (buffer ?chb) = [9]" "contents (buffer ?chc) = []" "capacity (buffer ?chc) = 1"
    by simp_all
  note run = select_first_receive_ready_diverges[OF h3 b(1,2), of 100 SEND 5 200]
  show ?thesis
    by (intro exI[of _ 1] exI[of _ ?s1] exI[of _ ?s2] exI[of _ 3] exI[of _ ?s3]
        exI[of _ ?chb] exI[of _ ?chc] conjI c1 snd c2 h3(1,2,5,6) b(3,4,5) run)
qed

subsection \<open>Claim C9\<close>

text \<open>
  Claim C9.  \<open>list_insert\<close> on an empty list (\<open>head = NULL\<close>) returns with the new node
  at the head and the node's \<open>next\<close> pointing to the node itself: after the branch for the
  empty list, \<open>curr\<close> is read from \<open>list->head\<close>, which is already the new node.  A
  following \<open>list_foreach\<close> on this list does not return, for every callback that returns
  normally on the inserted datum and keeps the list nodes (stated with an invariant \<open>I\<close>
  of the callback, so that \<open>sem_post\<close> on an initialised semaphore is covered).
\<close>

theorem list_insert_empty_cyclic:
  assumes "lists s list = Some l" and "head l = NULL"
  shows "\<exists>s' l' n. list_insert s list d = Inr s' \<and> lists s' list = Some l'
           \<and> head l' \<noteq> NULL \<and> nodes s' (head l') = Some n \<and> data n = d
           \<and> next n = head l'
           \<and> (\<forall>func I. I s' \<and> (\<forall>t. I t \<longrightarrow>
                    (\<exists>t'. func t d = Inr t' \<and> nodes t' = nodes t \<and> I t'))
                 \<longrightarrow> list_foreach s' list func = None)"
proof -
  let ?a = "Suc (brk s)"
  let ?n = "\<lparr>data = d, next = ?a, prev = ?a\<rparr>"
  let ?l' = "l\<lparr>head := ?a, count := count l + 1\<rparr>"
  let ?s' = "s\<lparr>brk := ?a, nodes := (nodes s)(?a \<mapsto> ?n),
           lists := (lists s)(list \<mapsto> ?l')\<rparr>"
  have ins: "list_insert s list d = Inr ?s'" by (rule list_insert_empty[OF assms])
  have div: "list_foreach ?s' list func = None"
    if ok: "I ?s' \<and> (\<forall>t. I t \<longrightarrow> (\<exists>t'. func t d = Inr t' \<and> nodes t' = nodes t \<and> I t'))"
    for func and I :: "state \<Rightarrow> bool"
  proof -
    have "list_foreach_loop func ?s' ?a = None"
    proof (rule list_foreach_loop_cycle
        [where I = "\<lambda>t. I t \<and> nodes t ?a = Some ?n" and n = ?n])
      fix t :: state assume a: "I t \<and> nodes t ?a = Some ?n"
      with ok obtain t' where "func t d = Inr t'" "nodes t' = nodes t" "I t'" by blast
      with a show "nodes t ?a = Some ?n \<and>
          (\<exists>t'. func t (data ?n) = Inr t' \<and> I t' \<and> nodes t' ?a = Some ?n)"
        by simp
    qed (use ok in simp_all)
    then show ?thesis by (simp add: list_foreach_def)
  qed
  have all: "\<forall>func I. I ?s' \<and> (\<forall>t. I t \<longrightarrow>
                    (\<exists>t'. func t d = Inr t' \<and> nodes t' = nodes t \<and> I t'))
                 \<longrightarrow> list_foreach ?s' list func = None"
    by (intro allI impI) (rule div)
  have "list_insert s list d = Inr ?s' \<and> lists ?s' list = Some ?l'
           \<and> head ?l' \<noteq> NULL \<and> nodes ?s' (head ?l') = Some ?n \<and> data ?n = d
           \<and> next ?n = head ?l'"
    using ins by simp
  with all show ?thesis
    by (intro exI[of _ ?s'] exI[of _ ?l'] exI[of _ ?n]) (rule conjI | erule conjE | assumption)+
qed

text \<open>From the initial store: a list is created, a semaphore is initialised at address 9
  and inserted; posting to every element of the list then runs forever.\<close>

theorem list_insert_empty_cyclic_witness:
  "\<exists>s0 s' l' n.
     s0 = sem_init (snd (list_create init)) 9 0
   \<and> lists s0 1 = Some \<lparr>head = NULL, count = 0\<rparr>
   \<and> list_insert s0 1 9 = Inr s' \<and> lists s' 1 = Some l' \<and> head l' \<noteq> NULL
   \<and> nodes s' (head l') = Some n \<and> data n = 9 \<and> next n = head l'
   \<and> list_foreach s' 1 sem_post = None"
proof -
  let ?s0 = "sem_init (snd (list_create init)) 9 0"
  let ?l = "\<lparr>head = NULL, count = 0\<rparr>"
  have l: "lists ?s0 1 = Some ?l" "head ?l = NULL"
    by (simp_all add: sem_init_def list_create_def malloc_def init_def)
  from list_insert_empty_cyclic[OF l, of 9] obtain s' l' n where
    r: "list_insert ?s0 1 9 = Inr s' \<and> lists s' 1 = Some l' \<and> head l' \<noteq> NULL \<and>
       nodes s' (head l') = Some n \<and> data n = 9 \<and> next n = head l'"
    and div: "\<forall>func I. I s' \<and> (\<forall>t. I t \<longrightarrow>
                    (\<exists>t'. func t 9 = Inr t' \<and> nodes t' = nodes t \<and> I t'))
                 \<longrightarrow> list_foreach s' 1 func = None"
    by (elim exE conjE) simp
  have live: "sems s' 9 \<noteq> None"
    using r l by (simp add: list_insert_empty sem_init_def, auto) 
  have step: "\<forall>t. sems t 9 \<noteq> None \<longrightarrow>
      (\<exists>t'. sem_post t 9 = Inr t' \<and> nodes t' = nodes t \<and> sems t' 9 \<noteq> None)"
    by (auto simp: sem_post_def)
  have "list_foreach s' 1 sem_post = None"
    using div[rule_format, of "\<lambda>t. sems t 9 \<noteq> None" sem_post] live step by simp
  with r l show ?thesis
    by (intro exI[of _ ?s0] exI[of _ s'] exI[of _ l'] exI[of _ n]) simp
qed

subsection \<open>Claim C10\<close>

text \<open>
  Claim C10.  A call of \<open>channel_select\<close> with \<open>channel_count = 0\<close> does not return, from
  any store: the registration loop and the sweep run over no entry, so the semaphore is
  inserted into no channel's list and keeps the value 0 it was initialised with, and the
  call stays in \<open>sem_wait\<close>.
\<close>

theorem select_no_channels_never_returns:
  "channel_select s [] selected_index = None"
  by (simp add: channel_select_def malloc_def sem_init_def select_loop.simps[of _ _ "[]"]
      sem_wait_blocked)

end
